theory Spec2Isabelle
  imports Main
begin

section \<open>Raw storage, element slots and outcomes\<close>

text \<open>
  The development embeds \<^verbatim>\<open>advanced-vector/vector.h\<close>: the class templates
  \<^verbatim>\<open>RawMemory<T>\<close> and \<^verbatim>\<open>Vector<T>\<close>.

  A block of raw memory for \<open>n\<close> elements is a list of \<open>n\<close> slots. A slot is either raw
  (no object lives there) or holds a live object of the element type with its value.
\<close>

datatype 'a slot = Raw | Live 'a

fun is_live :: "'a slot \<Rightarrow> bool" where
  "is_live Raw = False"
| "is_live (Live x) = True"

fun value_of :: "'a slot \<Rightarrow> 'a option" where
  "value_of Raw = None"
| "value_of (Live x) = Some x"

text \<open>
  A pointer \<^verbatim>\<open>T*\<close> is the address of a block and an offset in it, counted in elements.
  The block address \<open>0\<close> is \<^verbatim>\<open>nullptr\<close>. Sizes (\<^verbatim>\<open>size_t\<close>, 64 bits wide) are natural
  numbers, and a product that can wrap around is written with its wrap: that is the byte
  count \<^verbatim>\<open>n * sizeof(T)\<close> of \<^verbatim>\<open>Allocate\<close>, whose \<open>n\<close> comes from the caller through
  \<^verbatim>\<open>Reserve\<close>, \<^verbatim>\<open>Resize\<close> and \<^verbatim>\<open>Vector(size_t)\<close>. The other product of the class,
  \<^verbatim>\<open>data_.Capacity() * 2\<close>, is taken when the block is full of live elements, and a block
  of \<open>2 ^ 63\<close> or more live objects does not fit an address space of \<open>2 ^ 64\<close> bytes, so
  that product stays below \<open>2 ^ 64\<close>.
\<close>

type_synonym ptr = "nat \<times> nat"

fun ptr_add :: "ptr \<Rightarrow> nat \<Rightarrow> ptr" where
  "ptr_add (b, i) k = (b, i + k)"

fun ptr_sub :: "ptr \<Rightarrow> nat \<Rightarrow> ptr" where
  "ptr_sub (b, i) k = (b, i - k)"

fun ptr_diff :: "ptr \<Rightarrow> ptr \<Rightarrow> nat" where
  "ptr_diff (b, i) (c, j) = i - j"

text \<open>
  The members \<^verbatim>\<open>buffer_\<close>, \<^verbatim>\<open>capacity_\<close> of \<^verbatim>\<open>RawMemory\<close> and \<^verbatim>\<open>data_\<close>, \<^verbatim>\<open>size_\<close> of \<^verbatim>\<open>Vector\<close>.
\<close>

record raw_memory =
  m_buffer :: nat
  m_capacity :: nat

record vector =
  m_data :: raw_memory
  m_size :: nat

text \<open>
  The store: the allocated blocks, the next address \<^verbatim>\<open>operator new\<close> hands out, and the
  \<^verbatim>\<open>Vector\<close> objects by their own address (\<^verbatim>\<open>this\<close>), which is what \<^verbatim>\<open>this != &rhs\<close> compares.
\<close>

record 'a store =
  heap :: "nat \<Rightarrow> 'a slot list option"
  next_block :: nat
  vectors :: "nat \<Rightarrow> vector option"

text \<open>
  What the element type \<^verbatim>\<open>T\<close> and the allocator do is a parameter of the model:
  the two type traits \<^verbatim>\<open>CopyOrMoveData\<close> asks for, the value a value-initialisation gives,
  the value a moved-from object is left with, and which operations throw. A copy or move
  throws or not by the value of its source; the \<open>i\<close>-th value-initialisation of one call
  of \<^verbatim>\<open>uninitialized_value_construct_n\<close> throws or not by \<open>i\<close>; the call of \<^verbatim>\<open>operator new\<close>
  that \<^verbatim>\<open>Allocate(n)\<close> makes fails or not by \<open>n\<close>. Destructors do not throw. The size of an
  element in bytes is \<^verbatim>\<open>sizeof(T)\<close>.
\<close>

record 'a env =
  nothrow_move_constructible :: bool
  copy_constructible :: bool
  value_init :: 'a
  moved_from :: "'a \<Rightarrow> 'a"
  value_init_throws :: "nat \<Rightarrow> bool"
  copy_ctor_throws :: "'a \<Rightarrow> bool"
  move_ctor_throws :: "'a \<Rightarrow> bool"
  copy_assign_throws :: "'a \<Rightarrow> bool"
  move_assign_throws :: "'a \<Rightarrow> bool"
  alloc_fails :: "nat \<Rightarrow> bool"
  sizeof_T :: nat

text \<open>
  A call returns a result, or leaves by an exception, both with the store it leaves behind;
  or it has no defined behaviour (a failed \<^verbatim>\<open>assert\<close>, a destructor run on raw memory, an
  access outside a block).
\<close>

datatype exn = bad_alloc | elem_exn

datatype ('r, 's) outcome = Returned 'r 's | Threw exn 's | Undefined

fun and_then :: "('r, 's) outcome \<Rightarrow> ('r \<Rightarrow> 's \<Rightarrow> ('q, 's) outcome) \<Rightarrow> ('q, 's) outcome" where
  "and_then (Returned r s) f = f r s"
| "and_then (Threw e s) f = Threw e s"
| "and_then Undefined f = Undefined"

text \<open>\<^verbatim>\<open>try { m } catch (...) { h }\<close>, where the handler does not rethrow by itself.\<close>

fun try_catch :: "('r, 's) outcome \<Rightarrow> ('s \<Rightarrow> ('r, 's) outcome) \<Rightarrow> ('r, 's) outcome" where
  "try_catch (Returned r s) h = Returned r s"
| "try_catch (Threw e s) h = h s"
| "try_catch Undefined h = Undefined"

text \<open>Stack unwinding: an exception leaving a scope runs the destructor of a local first.\<close>

fun on_unwind :: "('r, 's) outcome \<Rightarrow> ('s \<Rightarrow> (unit, 's) outcome) \<Rightarrow> ('r, 's) outcome" where
  "on_unwind (Returned r s) d = Returned r s"
| "on_unwind (Threw e s) d = and_then (d s) (\<lambda>_ s'. Threw e s')"
| "on_unwind Undefined d = Undefined"

subsection \<open>Objects in slots\<close>

definition slot_at :: "'a store \<Rightarrow> ptr \<Rightarrow> 'a slot option" where
  "slot_at st p =
     (case heap st (fst p) of
        None \<Rightarrow> None
      | Some blk \<Rightarrow> if snd p < length blk then Some (blk ! snd p) else None)"

definition put_slot :: "ptr \<Rightarrow> 'a slot \<Rightarrow> 'a store \<Rightarrow> 'a store" where
  "put_slot p x st =
     (case heap st (fst p) of
        None \<Rightarrow> st
      | Some blk \<Rightarrow> st\<lparr>heap := (heap st)(fst p \<mapsto> blk[snd p := x])\<rparr>)"

text \<open>Placement new, \<^verbatim>\<open>new (p) T(...)\<close>, of a value already computed, into a raw slot.\<close>

definition construct_at :: "ptr \<Rightarrow> 'a \<Rightarrow> 'a store \<Rightarrow> (unit, 'a store) outcome" where
  "construct_at p x st =
     (case slot_at st p of
        Some Raw \<Rightarrow> Returned () (put_slot p (Live x) st)
      | _ \<Rightarrow> Undefined)"

text \<open>\<^verbatim>\<open>Vector::Destroy\<close>: \<^verbatim>\<open>buf->~T()\<close>.\<close>

definition Destroy :: "ptr \<Rightarrow> 'a store \<Rightarrow> (unit, 'a store) outcome" where
  "Destroy buf st =
     (case slot_at st buf of
        Some (Live x) \<Rightarrow> Returned () (put_slot buf Raw st)
      | _ \<Rightarrow> Undefined)"

text \<open>\<^verbatim>\<open>new (dst) T(*src)\<close> and \<^verbatim>\<open>new (dst) T(std::move(*src))\<close>.\<close>

definition copy_construct :: "'a env \<Rightarrow> ptr \<Rightarrow> ptr \<Rightarrow> 'a store \<Rightarrow> (unit, 'a store) outcome" where
  "copy_construct E src dst st =
     (case slot_at st src of
        Some (Live v) \<Rightarrow>
          if copy_ctor_throws E v then Threw elem_exn st else construct_at dst v st
      | _ \<Rightarrow> Undefined)"

definition move_construct :: "'a env \<Rightarrow> ptr \<Rightarrow> ptr \<Rightarrow> 'a store \<Rightarrow> (unit, 'a store) outcome" where
  "move_construct E src dst st =
     (case slot_at st src of
        Some (Live v) \<Rightarrow>
          if move_ctor_throws E v then Threw elem_exn st
          else and_then (construct_at dst v st)
                 (\<lambda>_ st1. Returned () (put_slot src (Live (moved_from E v)) st1))
      | _ \<Rightarrow> Undefined)"

text \<open>\<^verbatim>\<open>*dst = *src\<close>, \<^verbatim>\<open>*dst = std::move(*src)\<close> and \<^verbatim>\<open>*dst = std::move(tmp)\<close> for a local \<^verbatim>\<open>tmp\<close>.\<close>

definition assign_value :: "bool \<Rightarrow> ptr \<Rightarrow> 'a \<Rightarrow> 'a store \<Rightarrow> (unit, 'a store) outcome" where
  "assign_value throws dst v st =
     (case slot_at st dst of
        Some (Live w) \<Rightarrow> if throws then Threw elem_exn st else Returned () (put_slot dst (Live v) st)
      | _ \<Rightarrow> Undefined)"

definition copy_assign_elem :: "'a env \<Rightarrow> ptr \<Rightarrow> ptr \<Rightarrow> 'a store \<Rightarrow> (unit, 'a store) outcome" where
  "copy_assign_elem E src dst st =
     (case slot_at st src of
        Some (Live v) \<Rightarrow> assign_value (copy_assign_throws E v) dst v st
      | _ \<Rightarrow> Undefined)"

definition move_assign_elem :: "'a env \<Rightarrow> ptr \<Rightarrow> ptr \<Rightarrow> 'a store \<Rightarrow> (unit, 'a store) outcome" where
  "move_assign_elem E src dst st =
     (case slot_at st src of
        Some (Live v) \<Rightarrow>
          and_then (assign_value (move_assign_throws E v) dst v st)
            (\<lambda>_ st1. Returned () (put_slot src (Live (moved_from E v)) st1))
      | _ \<Rightarrow> Undefined)"

subsection \<open>The algorithms of the standard library the class calls\<close>

text \<open>
  They are not part of the repository; each follows the C++ standard. The loops count the
  elements still to do and advance the pointers. Those that construct into raw memory
  destroy what they have constructed so far when an element throws, and rethrow.
\<close>

text \<open>\<^verbatim>\<open>Vector::DestroyN\<close>: \<^verbatim>\<open>for (size_t i = 0; i != n; ++i) Destroy(buf + i);\<close>\<close>

fun DestroyN :: "ptr \<Rightarrow> nat \<Rightarrow> 'a store \<Rightarrow> (unit, 'a store) outcome" where
  "DestroyN buf 0 st = Returned () st"
| "DestroyN buf (Suc n) st =
     and_then (Destroy buf st) (\<lambda>_ st1. DestroyN (ptr_add buf 1) n st1)"

text \<open>\<^verbatim>\<open>std::destroy_n(first, n)\<close> runs the same loop.\<close>

definition destroy_n :: "ptr \<Rightarrow> nat \<Rightarrow> 'a store \<Rightarrow> (unit, 'a store) outcome" where
  "destroy_n first n st = DestroyN first n st"

text \<open>
  \<^verbatim>\<open>std::uninitialized_value_construct_n(first, n)\<close>; \<open>i\<close> elements are constructed already.
\<close>

fun uninit_value_construct_from ::
  "'a env \<Rightarrow> ptr \<Rightarrow> nat \<Rightarrow> nat \<Rightarrow> 'a store \<Rightarrow> (unit, 'a store) outcome" where
  "uninit_value_construct_from E first i 0 st = Returned () st"
| "uninit_value_construct_from E first i (Suc m) st =
     (if value_init_throws E i
      then and_then (DestroyN first i st) (\<lambda>_ st1. Threw elem_exn st1)
      else and_then (construct_at (ptr_add first i) (value_init E) st)
             (\<lambda>_ st1. uninit_value_construct_from E first (Suc i) m st1))"

definition uninitialized_value_construct_n ::
  "'a env \<Rightarrow> ptr \<Rightarrow> nat \<Rightarrow> 'a store \<Rightarrow> (unit, 'a store) outcome" where
  "uninitialized_value_construct_n E first n st = uninit_value_construct_from E first 0 n st"

text \<open>\<^verbatim>\<open>std::uninitialized_copy_n(first, n, d_first)\<close>.\<close>

fun uninit_copy_from ::
  "'a env \<Rightarrow> ptr \<Rightarrow> ptr \<Rightarrow> nat \<Rightarrow> nat \<Rightarrow> 'a store \<Rightarrow> (unit, 'a store) outcome" where
  "uninit_copy_from E first d_first i 0 st = Returned () st"
| "uninit_copy_from E first d_first i (Suc m) st =
     (case copy_construct E (ptr_add first i) (ptr_add d_first i) st of
        Returned _ st1 \<Rightarrow> uninit_copy_from E first d_first (Suc i) m st1
      | Threw e st1 \<Rightarrow> and_then (DestroyN d_first i st1) (\<lambda>_ st2. Threw e st2)
      | Undefined \<Rightarrow> Undefined)"

definition uninitialized_copy_n ::
  "'a env \<Rightarrow> ptr \<Rightarrow> nat \<Rightarrow> ptr \<Rightarrow> 'a store \<Rightarrow> (unit, 'a store) outcome" where
  "uninitialized_copy_n E first n d_first st = uninit_copy_from E first d_first 0 n st"

text \<open>\<^verbatim>\<open>std::uninitialized_move_n(first, n, d_first)\<close>.\<close>

fun uninit_move_from ::
  "'a env \<Rightarrow> ptr \<Rightarrow> ptr \<Rightarrow> nat \<Rightarrow> nat \<Rightarrow> 'a store \<Rightarrow> (unit, 'a store) outcome" where
  "uninit_move_from E first d_first i 0 st = Returned () st"
| "uninit_move_from E first d_first i (Suc m) st =
     (case move_construct E (ptr_add first i) (ptr_add d_first i) st of
        Returned _ st1 \<Rightarrow> uninit_move_from E first d_first (Suc i) m st1
      | Threw e st1 \<Rightarrow> and_then (DestroyN d_first i st1) (\<lambda>_ st2. Threw e st2)
      | Undefined \<Rightarrow> Undefined)"

definition uninitialized_move_n ::
  "'a env \<Rightarrow> ptr \<Rightarrow> nat \<Rightarrow> ptr \<Rightarrow> 'a store \<Rightarrow> (unit, 'a store) outcome" where
  "uninitialized_move_n E first n d_first st = uninit_move_from E first d_first 0 n st"

text \<open>\<^verbatim>\<open>std::copy(first, last, d_first)\<close>: \<^verbatim>\<open>*d_first++ = *first++\<close> while \<^verbatim>\<open>first != last\<close>.\<close>

fun copy_loop :: "'a env \<Rightarrow> ptr \<Rightarrow> ptr \<Rightarrow> nat \<Rightarrow> 'a store \<Rightarrow> (unit, 'a store) outcome" where
  "copy_loop E first d_first 0 st = Returned () st"
| "copy_loop E first d_first (Suc m) st =
     and_then (copy_assign_elem E first d_first st)
       (\<lambda>_ st1. copy_loop E (ptr_add first 1) (ptr_add d_first 1) m st1)"

definition std_copy :: "'a env \<Rightarrow> ptr \<Rightarrow> ptr \<Rightarrow> ptr \<Rightarrow> 'a store \<Rightarrow> (unit, 'a store) outcome" where
  "std_copy E first lastp d_first st = copy_loop E first d_first (ptr_diff lastp first) st"

text \<open>\<^verbatim>\<open>std::move(first, last, d_first)\<close>: \<^verbatim>\<open>*d_first++ = std::move(*first++)\<close>.\<close>

fun move_loop :: "'a env \<Rightarrow> ptr \<Rightarrow> ptr \<Rightarrow> nat \<Rightarrow> 'a store \<Rightarrow> (unit, 'a store) outcome" where
  "move_loop E first d_first 0 st = Returned () st"
| "move_loop E first d_first (Suc m) st =
     and_then (move_assign_elem E first d_first st)
       (\<lambda>_ st1. move_loop E (ptr_add first 1) (ptr_add d_first 1) m st1)"

definition std_move :: "'a env \<Rightarrow> ptr \<Rightarrow> ptr \<Rightarrow> ptr \<Rightarrow> 'a store \<Rightarrow> (unit, 'a store) outcome" where
  "std_move E first lastp d_first st = move_loop E first d_first (ptr_diff lastp first) st"

text \<open>
  \<^verbatim>\<open>std::move_backward(first, last, d_last)\<close>: \<^verbatim>\<open>*(--d_last) = std::move(*(--last))\<close> while
  \<^verbatim>\<open>first != last\<close>.
\<close>

fun move_backward_loop ::
  "'a env \<Rightarrow> ptr \<Rightarrow> ptr \<Rightarrow> nat \<Rightarrow> 'a store \<Rightarrow> (unit, 'a store) outcome" where
  "move_backward_loop E lastp d_last 0 st = Returned () st"
| "move_backward_loop E lastp d_last (Suc m) st =
     and_then (move_assign_elem E (ptr_sub lastp 1) (ptr_sub d_last 1) st)
       (\<lambda>_ st1. move_backward_loop E (ptr_sub lastp 1) (ptr_sub d_last 1) m st1)"

definition std_move_backward ::
  "'a env \<Rightarrow> ptr \<Rightarrow> ptr \<Rightarrow> ptr \<Rightarrow> 'a store \<Rightarrow> (unit, 'a store) outcome" where
  "std_move_backward E first lastp d_last st =
     move_backward_loop E lastp d_last (ptr_diff lastp first) st"

section \<open>RawMemory\<close>

text \<open>The product of two \<^verbatim>\<open>size_t\<close> values, which wraps around at \<open>2 ^ 64\<close>.\<close>

definition size_t_mul :: "nat \<Rightarrow> nat \<Rightarrow> nat" where
  "size_t_mul a b = (a * b) mod 2 ^ 64"

text \<open>
  \<^verbatim>\<open>Allocate\<close>: \<^verbatim>\<open>n != 0 ? static_cast<T*>(operator new(n * sizeof(T))) : nullptr\<close>. A new block
  is raw throughout and its address was never handed out before. \<^verbatim>\<open>operator new\<close> is asked
  for the bytes of the wrapped product, so the block has room for as many elements as fit
  these bytes: \<open>n\<close> of them when \<^verbatim>\<open>n * sizeof(T)\<close> does not wrap, fewer than \<open>n\<close> when it does.
\<close>

definition Allocate :: "'a env \<Rightarrow> nat \<Rightarrow> 'a store \<Rightarrow> (nat, 'a store) outcome" where
  "Allocate E n st =
     (if n \<noteq> 0
      then (if alloc_fails E n then Threw bad_alloc st
            else Returned (next_block st)
                   (st\<lparr>heap := (heap st)(next_block st \<mapsto>
                                   replicate (size_t_mul n (sizeof_T E) div sizeof_T E) Raw),
                       next_block := Suc (next_block st)\<rparr>))
      else Returned 0 st)"

text \<open>\<^verbatim>\<open>Deallocate\<close>: \<^verbatim>\<open>operator delete(buf)\<close>, which does nothing for \<^verbatim>\<open>nullptr\<close>.\<close>

definition Deallocate :: "nat \<Rightarrow> 'a store \<Rightarrow> (unit, 'a store) outcome" where
  "Deallocate buf st =
     (if buf = 0 then Returned () st
      else case heap st buf of
             None \<Rightarrow> Undefined
           | Some blk \<Rightarrow> Returned () (st\<lparr>heap := (heap st)(buf := None)\<rparr>))"

definition RawMemory_default :: raw_memory where
  "RawMemory_default = \<lparr>m_buffer = 0, m_capacity = 0\<rparr>"

definition RawMemory :: "'a env \<Rightarrow> nat \<Rightarrow> 'a store \<Rightarrow> (raw_memory, 'a store) outcome" where
  "RawMemory E capacity st =
     and_then (Allocate E capacity st)
       (\<lambda>buf st1. Returned \<lparr>m_buffer = buf, m_capacity = capacity\<rparr> st1)"

definition RawMemory_dtor :: "raw_memory \<Rightarrow> 'a store \<Rightarrow> (unit, 'a store) outcome" where
  "RawMemory_dtor m st = Deallocate (m_buffer m) st"

text \<open>\<^verbatim>\<open>RawMemory::Swap\<close>: the pair is the new \<^verbatim>\<open>*this\<close> and the new \<^verbatim>\<open>other\<close>.\<close>

definition RawMemory_Swap :: "raw_memory \<Rightarrow> raw_memory \<Rightarrow> raw_memory \<times> raw_memory" where
  "RawMemory_Swap this other =
     (\<lparr>m_buffer = m_buffer other, m_capacity = m_capacity other\<rparr>,
      \<lparr>m_buffer = m_buffer this, m_capacity = m_capacity this\<rparr>)"

definition GetAddress :: "raw_memory \<Rightarrow> ptr" where
  "GetAddress m = (m_buffer m, 0)"

text \<open>\<^verbatim>\<open>RawMemory::operator[]\<close> with its \<^verbatim>\<open>assert(index < capacity_)\<close>.\<close>

definition RawMemory_index :: "raw_memory \<Rightarrow> nat \<Rightarrow> ptr option" where
  "RawMemory_index m index =
     (if index < m_capacity m then Some (m_buffer m, index) else None)"

section \<open>Vector\<close>

definition put_vector :: "nat \<Rightarrow> vector \<Rightarrow> 'a store \<Rightarrow> 'a store" where
  "put_vector this v st = st\<lparr>vectors := (vectors st)(this \<mapsto> v)\<rparr>"

definition Size :: "vector \<Rightarrow> nat" where
  "Size v = m_size v"

definition Capacity :: "vector \<Rightarrow> nat" where
  "Capacity v = m_capacity (m_data v)"

definition Vector_begin :: "vector \<Rightarrow> ptr" where
  "Vector_begin v = GetAddress (m_data v)"

definition Vector_end :: "vector \<Rightarrow> ptr" where
  "Vector_end v = ptr_add (GetAddress (m_data v)) (m_size v)"

text \<open>\<^verbatim>\<open>Vector::operator[]\<close> with its \<^verbatim>\<open>assert(index < size_)\<close>; the reference is a pointer.\<close>

definition Vector_index :: "vector \<Rightarrow> nat \<Rightarrow> ptr option" where
  "Vector_index v index =
     (if index < m_size v then RawMemory_index (m_data v) index else None)"

text \<open>\<^verbatim>\<open>Vector() = default\<close>.\<close>

definition Vector_default :: "nat \<Rightarrow> 'a store \<Rightarrow> (unit, 'a store) outcome" where
  "Vector_default this st =
     Returned () (put_vector this \<lparr>m_data = RawMemory_default, m_size = 0\<rparr> st)"

text \<open>
  \<^verbatim>\<open>explicit Vector(size_t size)\<close>. When the construction of an element throws, the member
  \<^verbatim>\<open>data_\<close>, already constructed, is destroyed, and no vector comes to exist at \<^verbatim>\<open>this\<close>.
\<close>

definition Vector_sized :: "'a env \<Rightarrow> nat \<Rightarrow> nat \<Rightarrow> 'a store \<Rightarrow> (unit, 'a store) outcome" where
  "Vector_sized E this sz st =
     and_then (RawMemory E sz st) (\<lambda>data st1.
     and_then (on_unwind (uninitialized_value_construct_n E (GetAddress data) sz st1)
                 (RawMemory_dtor data)) (\<lambda>_ st2.
     Returned () (put_vector this \<lparr>m_data = data, m_size = sz\<rparr> st2)))"

text \<open>
  \<^verbatim>\<open>Vector(const Vector& other)\<close>, as the value of the new object: a local vector such as
  \<^verbatim>\<open>rhs_copy\<close> of the copy assignment is a value, an object with an address is in the store.
\<close>

definition Vector_copy_value :: "'a env \<Rightarrow> vector \<Rightarrow> 'a store \<Rightarrow> (vector, 'a store) outcome" where
  "Vector_copy_value E other st =
     and_then (RawMemory E (m_size other) st) (\<lambda>data st1.
     and_then (on_unwind (uninitialized_copy_n E (GetAddress (m_data other)) (m_size other)
                            (GetAddress data) st1)
                 (RawMemory_dtor data)) (\<lambda>_ st2.
     Returned \<lparr>m_data = data, m_size = m_size other\<rparr> st2))"

definition Vector_copy :: "'a env \<Rightarrow> nat \<Rightarrow> nat \<Rightarrow> 'a store \<Rightarrow> (unit, 'a store) outcome" where
  "Vector_copy E this other st =
     (case vectors st other of
        None \<Rightarrow> Undefined
      | Some ov \<Rightarrow>
          and_then (Vector_copy_value E ov st) (\<lambda>v st1. Returned () (put_vector this v st1)))"

text \<open>\<^verbatim>\<open>Vector::Swap\<close>: \<^verbatim>\<open>data_.Swap(other.data_); std::swap(size_, other.size_);\<close>\<close>

definition Swap :: "nat \<Rightarrow> nat \<Rightarrow> 'a store \<Rightarrow> (unit, 'a store) outcome" where
  "Swap this other st =
     (case (vectors st this, vectors st other) of
        (Some v, Some ov) \<Rightarrow>
          (case RawMemory_Swap (m_data v) (m_data ov) of
             (data', other_data') \<Rightarrow>
               Returned ()
                 (put_vector this \<lparr>m_data = data', m_size = m_size ov\<rparr>
                    (put_vector other \<lparr>m_data = other_data', m_size = m_size v\<rparr> st)))
      | _ \<Rightarrow> Undefined)"

text \<open>\<^verbatim>\<open>Vector(Vector&& other) noexcept\<close>: \<^verbatim>\<open>data_{}, size_{0}\<close>, then \<^verbatim>\<open>Swap(other)\<close>.\<close>

definition Vector_move :: "nat \<Rightarrow> nat \<Rightarrow> 'a store \<Rightarrow> (unit, 'a store) outcome" where
  "Vector_move this other st =
     Swap this other (put_vector this \<lparr>m_data = RawMemory_default, m_size = 0\<rparr> st)"

text \<open>\<^verbatim>\<open>~Vector()\<close>: \<^verbatim>\<open>DestroyN(data_.GetAddress(), size_)\<close>, then the member \<^verbatim>\<open>data_\<close> is destroyed.\<close>

definition Vector_dtor_value :: "vector \<Rightarrow> 'a store \<Rightarrow> (unit, 'a store) outcome" where
  "Vector_dtor_value v st =
     and_then (DestroyN (GetAddress (m_data v)) (m_size v) st) (\<lambda>_ st1.
     RawMemory_dtor (m_data v) st1)"

definition Vector_dtor :: "nat \<Rightarrow> 'a store \<Rightarrow> (unit, 'a store) outcome" where
  "Vector_dtor this st =
     (case vectors st this of
        None \<Rightarrow> Undefined
      | Some v \<Rightarrow>
          and_then (Vector_dtor_value v st) (\<lambda>_ st1.
          Returned () (st1\<lparr>vectors := (vectors st1)(this := None)\<rparr>)))"

text \<open>
  \<^verbatim>\<open>Vector& operator=(const Vector& rhs)\<close>. The local \<^verbatim>\<open>rhs_copy\<close> is destroyed where its block
  ends, before \<^verbatim>\<open>size_ = rhs.size_\<close>.
\<close>

definition copy_assign :: "'a env \<Rightarrow> nat \<Rightarrow> nat \<Rightarrow> 'a store \<Rightarrow> (unit, 'a store) outcome" where
  "copy_assign E this rhs st =
     (case (vectors st this, vectors st rhs) of
        (Some v, Some r) \<Rightarrow>
          if this \<noteq> rhs then
            (if m_size r > Capacity v then
               and_then (Vector_copy_value E r st) (\<lambda>rhs_copy st1.
               and_then (Vector_dtor_value v (put_vector this rhs_copy st1)) (\<lambda>_ st2.
               Returned () (put_vector this (rhs_copy\<lparr>m_size := m_size r\<rparr>) st2)))
             else if m_size v > m_size r then
               and_then (std_copy E (GetAddress (m_data r))
                           (ptr_add (GetAddress (m_data r)) (m_size r))
                           (GetAddress (m_data v)) st) (\<lambda>_ st1.
               and_then (destroy_n (ptr_add (GetAddress (m_data v)) (m_size r))
                           (m_size v - m_size r) st1) (\<lambda>_ st2.
               Returned () (put_vector this (v\<lparr>m_size := m_size r\<rparr>) st2)))
             else
               and_then (std_copy E (GetAddress (m_data r))
                           (ptr_add (GetAddress (m_data r)) (m_size v))
                           (GetAddress (m_data v)) st) (\<lambda>_ st1.
               and_then (uninitialized_copy_n E (ptr_add (GetAddress (m_data r)) (m_size v))
                           (m_size r - m_size v)
                           (ptr_add (GetAddress (m_data v)) (m_size v)) st1) (\<lambda>_ st2.
               Returned () (put_vector this (v\<lparr>m_size := m_size r\<rparr>) st2))))
          else Returned () st
      | _ \<Rightarrow> Undefined)"

text \<open>\<^verbatim>\<open>Vector& operator=(Vector&& rhs) noexcept\<close>.\<close>

definition move_assign :: "nat \<Rightarrow> nat \<Rightarrow> 'a store \<Rightarrow> (unit, 'a store) outcome" where
  "move_assign this rhs st =
     (case (vectors st this, vectors st rhs) of
        (Some v, Some r) \<Rightarrow> if this \<noteq> rhs then Swap this rhs st else Returned () st
      | _ \<Rightarrow> Undefined)"

text \<open>
  \<^verbatim>\<open>CopyOrMoveData(T* begin, size_t size, T* end)\<close>: the \<^verbatim>\<open>if constexpr\<close> on the traits of \<^verbatim>\<open>T\<close>.
\<close>

definition CopyOrMoveData ::
  "'a env \<Rightarrow> ptr \<Rightarrow> nat \<Rightarrow> ptr \<Rightarrow> 'a store \<Rightarrow> (unit, 'a store) outcome" where
  "CopyOrMoveData E src sz dst st =
     (if nothrow_move_constructible E \<or> \<not> copy_constructible E
      then uninitialized_move_n E src sz dst st
      else uninitialized_copy_n E src sz dst st)"

text \<open>
  The constructor call \<^verbatim>\<open>T(std::forward<Args>(args)...)\<close> is given by what it does: \<open>None\<close>
  when it throws, \<open>Some x\<close> when it constructs the value \<open>x\<close>. The arguments are taken not
  to refer to an element that a move would change.
\<close>

definition construct_args :: "'a option \<Rightarrow> ptr \<Rightarrow> 'a store \<Rightarrow> (unit, 'a store) outcome" where
  "construct_args args p st =
     (case args of None \<Rightarrow> Threw elem_exn st | Some x \<Rightarrow> construct_at p x st)"

text \<open>
  \<^verbatim>\<open>Vector::Emplace(const_iterator pos, Args&&... args)\<close>, in three parts: the branch
  \<^verbatim>\<open>size_ < Capacity()\<close>, the rest of the body, which reallocates, and the function itself.
  A position outside \<^verbatim>\<open>[begin(), end()]\<close> has no defined behaviour. The two
  \<^verbatim>\<open>catch (...)\<close> blocks of the source end without a \<^verbatim>\<open>throw;\<close>, so control goes on after them.
\<close>

definition Emplace_in_place ::
  "'a env \<Rightarrow> nat \<Rightarrow> vector \<Rightarrow> ptr \<Rightarrow> 'a option \<Rightarrow> 'a store \<Rightarrow> (ptr, 'a store) outcome" where
  "Emplace_in_place E this v pos args st =
     (if pos = Vector_end v then
        and_then (construct_args args (Vector_end v) st) (\<lambda>_ st1.
        Returned (Vector_end v) (put_vector this (v\<lparr>m_size := m_size v + 1\<rparr>) st1))
      else
        (case args of
           None \<Rightarrow> Threw elem_exn st
         | Some tmp \<Rightarrow>
             and_then (uninitialized_move_n E (ptr_sub (Vector_end v) 1) 1
                         (Vector_end v) st) (\<lambda>_ st1.
             and_then (std_move_backward E pos (ptr_sub (Vector_end v) 1)
                         (Vector_end v) st1) (\<lambda>_ st2.
             and_then (assign_value (move_assign_throws E tmp) pos tmp st2) (\<lambda>_ st3.
             Returned pos (put_vector this (v\<lparr>m_size := m_size v + 1\<rparr>) st3))))))"

definition Emplace_realloc ::
  "'a env \<Rightarrow> nat \<Rightarrow> vector \<Rightarrow> ptr \<Rightarrow> 'a option \<Rightarrow> 'a store \<Rightarrow> (ptr, 'a store) outcome" where
  "Emplace_realloc E this v pos args st =
     (let sz = (if Capacity v = 0 then 1 else Capacity v * 2) in
      and_then (RawMemory E sz st) (\<lambda>new_data st1.
      (let new_data_pos =
             ptr_add (GetAddress new_data) (ptr_diff pos (GetAddress (m_data v))) in
       and_then (on_unwind (construct_args args new_data_pos st1)
                   (RawMemory_dtor new_data)) (\<lambda>_ st2.
       and_then (if Vector_begin v \<noteq> Vector_end v
                 then try_catch
                        (CopyOrMoveData E (GetAddress (m_data v))
                           (ptr_diff pos (GetAddress (m_data v)))
                           (GetAddress new_data) st2)
                        (\<lambda>st'. Destroy new_data_pos st')
                 else Returned () st2) (\<lambda>_ st3.
       and_then (try_catch
                   (CopyOrMoveData E pos (ptr_diff (Vector_end v) pos)
                      (ptr_add new_data_pos 1) st3)
                   (\<lambda>st'. DestroyN (GetAddress new_data)
                            (ptr_diff new_data_pos (GetAddress new_data)) st')) (\<lambda>_ st4.
       (case RawMemory_Swap (m_data v) new_data of
          (data', new_data') \<Rightarrow>
            and_then (DestroyN (GetAddress new_data') (m_size v)
                        (put_vector this (v\<lparr>m_data := data'\<rparr>) st4)) (\<lambda>_ st5.
            and_then (RawMemory_dtor new_data'
                        (put_vector this \<lparr>m_data = data', m_size = m_size v + 1\<rparr> st5))
              (\<lambda>_ st6.
            Returned new_data_pos st6)))))))))"

definition Emplace ::
  "'a env \<Rightarrow> nat \<Rightarrow> ptr \<Rightarrow> 'a option \<Rightarrow> 'a store \<Rightarrow> (ptr, 'a store) outcome" where
  "Emplace E this pos args st =
     (case vectors st this of
        None \<Rightarrow> Undefined
      | Some v \<Rightarrow>
          if fst pos \<noteq> m_buffer (m_data v) \<or> m_size v < snd pos then Undefined
          else if m_size v < Capacity v then Emplace_in_place E this v pos args st
          else Emplace_realloc E this v pos args st)"

text \<open>\<^verbatim>\<open>EmplaceBack\<close> returns \<^verbatim>\<open>*Emplace(end(), ...)\<close>; the reference is a pointer.\<close>

definition EmplaceBack ::
  "'a env \<Rightarrow> nat \<Rightarrow> 'a option \<Rightarrow> 'a store \<Rightarrow> (ptr, 'a store) outcome" where
  "EmplaceBack E this args st =
     (case vectors st this of
        None \<Rightarrow> Undefined
      | Some v \<Rightarrow> Emplace E this (Vector_end v) args st)"

text \<open>
  \<^verbatim>\<open>Insert(pos, const T&)\<close> and \<^verbatim>\<open>Insert(pos, T&&)\<close>: the constructor \<^verbatim>\<open>Emplace\<close> runs is the
  copy, respectively the move constructor of \<^verbatim>\<open>T\<close>.
\<close>

definition Insert_copy ::
  "'a env \<Rightarrow> nat \<Rightarrow> ptr \<Rightarrow> 'a \<Rightarrow> 'a store \<Rightarrow> (ptr, 'a store) outcome" where
  "Insert_copy E this pos val st =
     Emplace E this pos (if copy_ctor_throws E val then None else Some val) st"

definition Insert_move ::
  "'a env \<Rightarrow> nat \<Rightarrow> ptr \<Rightarrow> 'a \<Rightarrow> 'a store \<Rightarrow> (ptr, 'a store) outcome" where
  "Insert_move E this pos val st =
     Emplace E this pos (if move_ctor_throws E val then None else Some val) st"

definition PushBack_copy :: "'a env \<Rightarrow> nat \<Rightarrow> 'a \<Rightarrow> 'a store \<Rightarrow> (unit, 'a store) outcome" where
  "PushBack_copy E this val st =
     and_then (EmplaceBack E this (if copy_ctor_throws E val then None else Some val) st)
       (\<lambda>_ st1. Returned () st1)"

definition PushBack_move :: "'a env \<Rightarrow> nat \<Rightarrow> 'a \<Rightarrow> 'a store \<Rightarrow> (unit, 'a store) outcome" where
  "PushBack_move E this val st =
     and_then (EmplaceBack E this (if move_ctor_throws E val then None else Some val) st)
       (\<lambda>_ st1. Returned () st1)"

text \<open>
  \<^verbatim>\<open>Erase(const_iterator pos)\<close>; a position outside \<^verbatim>\<open>[begin(), end())\<close> has no defined
  behaviour.
\<close>

definition Erase :: "'a env \<Rightarrow> nat \<Rightarrow> ptr \<Rightarrow> 'a store \<Rightarrow> (ptr, 'a store) outcome" where
  "Erase E this pos st =
     (case vectors st this of
        None \<Rightarrow> Undefined
      | Some v \<Rightarrow>
          if fst pos \<noteq> m_buffer (m_data v) \<or> m_size v \<le> snd pos then Undefined
          else
            and_then (std_move E (ptr_add pos 1) (Vector_end v) pos st) (\<lambda>_ st1.
            and_then (Destroy (ptr_sub (Vector_end v) 1) st1) (\<lambda>_ st2.
            Returned pos (put_vector this (v\<lparr>m_size := m_size v - 1\<rparr>) st2))))"

text \<open>\<^verbatim>\<open>PopBack() noexcept\<close>; on an empty vector it has no defined behaviour.\<close>

definition PopBack :: "nat \<Rightarrow> 'a store \<Rightarrow> (unit, 'a store) outcome" where
  "PopBack this st =
     (case vectors st this of
        None \<Rightarrow> Undefined
      | Some v \<Rightarrow>
          if m_size v = 0 then Undefined
          else
            and_then (Destroy (ptr_sub (Vector_end v) 1) st) (\<lambda>_ st1.
            Returned () (put_vector this (v\<lparr>m_size := m_size v - 1\<rparr>) st1)))"

text \<open>\<^verbatim>\<open>Reserve(size_t new_capacity)\<close>.\<close>

definition Reserve :: "'a env \<Rightarrow> nat \<Rightarrow> nat \<Rightarrow> 'a store \<Rightarrow> (unit, 'a store) outcome" where
  "Reserve E this new_capacity st =
     (case vectors st this of
        None \<Rightarrow> Undefined
      | Some v \<Rightarrow>
          if new_capacity \<le> Capacity v then Returned () st
          else
            and_then (RawMemory E new_capacity st) (\<lambda>new_data st1.
            and_then (on_unwind (CopyOrMoveData E (GetAddress (m_data v)) (m_size v)
                                   (GetAddress new_data) st1)
                        (RawMemory_dtor new_data)) (\<lambda>_ st2.
            (case RawMemory_Swap new_data (m_data v) of
               (new_data', data') \<Rightarrow>
                 and_then (destroy_n (GetAddress new_data') (m_size v)
                             (put_vector this (v\<lparr>m_data := data'\<rparr>) st2)) (\<lambda>_ st3.
                 RawMemory_dtor new_data' st3)))))"

text \<open>\<^verbatim>\<open>Resize(size_t new_size)\<close>.\<close>

definition Resize :: "'a env \<Rightarrow> nat \<Rightarrow> nat \<Rightarrow> 'a store \<Rightarrow> (unit, 'a store) outcome" where
  "Resize E this new_size st =
     (case vectors st this of
        None \<Rightarrow> Undefined
      | Some v \<Rightarrow>
          if new_size < m_size v then
            and_then (DestroyN (ptr_add (GetAddress (m_data v)) new_size)
                        (m_size v - new_size) st) (\<lambda>_ st1.
            Returned () (put_vector this (v\<lparr>m_size := new_size\<rparr>) st1))
          else if new_size > m_size v then
            and_then (Reserve E this new_size st) (\<lambda>_ st1.
            (case vectors st1 this of
               None \<Rightarrow> Undefined
             | Some v1 \<Rightarrow>
                 and_then (uninitialized_value_construct_n E
                             (ptr_add (GetAddress (m_data v1)) (m_size v1))
                             (new_size - m_size v1) st1) (\<lambda>_ st2.
                 Returned () (put_vector this (v1\<lparr>m_size := new_size\<rparr>) st2))))
          else Returned () st)"

section \<open>Invariants and auxiliary notions\<close>

text \<open>
  The invariant of a vector: the size does not exceed the capacity; a vector of capacity
  0 has no block; otherwise its block has exactly \<^verbatim>\<open>capacity\<close> slots, of which the first
  \<^verbatim>\<open>size\<close> are live and the others raw.
\<close>

definition vector_inv :: "'a store \<Rightarrow> vector \<Rightarrow> bool" where
  "vector_inv st v \<longleftrightarrow>
     m_size v \<le> Capacity v \<and>
     (if Capacity v = 0 then m_buffer (m_data v) = 0
      else m_buffer (m_data v) \<noteq> 0 \<and>
           (case heap st (m_buffer (m_data v)) of
              None \<Rightarrow> False
            | Some blk \<Rightarrow>
                map is_live blk =
                  replicate (m_size v) True @ replicate (Capacity v - m_size v) False))"

text \<open>
  The invariant of the store: \<^verbatim>\<open>nullptr\<close> is no block, the addresses not yet handed out
  hold no block, every vector satisfies its invariant, and no two vectors share a block.
\<close>

definition store_inv :: "'a store \<Rightarrow> bool" where
  "store_inv st \<longleftrightarrow>
     heap st 0 = None \<and> next_block st \<noteq> 0 \<and>
     (\<forall>a. next_block st \<le> a \<longrightarrow> heap st a = None) \<and>
     (\<forall>this v. vectors st this = Some v \<longrightarrow> vector_inv st v) \<and>
     (\<forall>this other v w.
        vectors st this = Some v \<and> vectors st other = Some w \<and> this \<noteq> other \<and>
        m_buffer (m_data v) \<noteq> 0 \<longrightarrow> m_buffer (m_data v) \<noteq> m_buffer (m_data w))"

text \<open>The first \<^verbatim>\<open>size\<close> slots of a vector's block: what \<^verbatim>\<open>operator[]\<close> can reach.\<close>

definition elements :: "'a store \<Rightarrow> vector \<Rightarrow> 'a slot list" where
  "elements st v =
     (case heap st (m_buffer (m_data v)) of
        None \<Rightarrow> []
      | Some blk \<Rightarrow> take (m_size v) blk)"

text \<open>The vector \<open>v\<close> holds exactly the values \<open>xs\<close>, in a block of the form the invariant asks for.\<close>

definition owns :: "'a store \<Rightarrow> vector \<Rightarrow> 'a list \<Rightarrow> bool" where
  "owns st v xs \<longleftrightarrow>
     m_size v = length xs \<and> length xs \<le> Capacity v \<and>
     (if Capacity v = 0 then m_buffer (m_data v) = 0
      else m_buffer (m_data v) \<noteq> 0 \<and>
           heap st (m_buffer (m_data v)) =
             Some (map Live xs @ replicate (Capacity v - length xs) Raw))"

text \<open>Two stores with the same vectors and blocks whose slots are live at the same places.\<close>

definition same_shape :: "'a store \<Rightarrow> 'a store \<Rightarrow> bool" where
  "same_shape st st' \<longleftrightarrow>
     next_block st' = next_block st \<and> vectors st' = vectors st \<and>
     (\<forall>a. map_option (map is_live) (heap st' a) = map_option (map is_live) (heap st a))"

text \<open>Writing the slots \<open>xs\<close> over a block from an offset on; changing and releasing a block.\<close>

definition overwrite :: "'b list \<Rightarrow> nat \<Rightarrow> 'b list \<Rightarrow> 'b list" where
  "overwrite blk off xs = take off blk @ xs @ drop (off + length xs) blk"

definition set_block :: "nat \<Rightarrow> 'a slot list \<Rightarrow> 'a store \<Rightarrow> 'a store" where
  "set_block b blk st = st\<lparr>heap := (heap st)(b \<mapsto> blk)\<rparr>"

definition new_block :: "nat \<Rightarrow> 'a store \<Rightarrow> 'a store" where
  "new_block n st =
     st\<lparr>heap := (heap st)(next_block st \<mapsto> replicate n Raw), next_block := Suc (next_block st)\<rparr>"

definition release :: "nat \<Rightarrow> 'a store \<Rightarrow> 'a store" where
  "release b st = (if b = 0 then st else st\<lparr>heap := (heap st)(b := None)\<rparr>)"

text \<open>
  The bytes of \<open>n\<close> elements are counted by a \<^verbatim>\<open>size_t\<close>: the product \<^verbatim>\<open>n * sizeof(T)\<close> does
  not wrap around. It is so for every \<open>n\<close> up to twice the number of elements of a block
  that an address space of \<open>2 ^ 64\<close> bytes holds.
\<close>

definition bytes_fit :: "'a env \<Rightarrow> nat \<Rightarrow> bool" where
  "bytes_fit E n \<longleftrightarrow> 0 < sizeof_T E \<and> n * sizeof_T E < 2 ^ 64"

text \<open>What a call leaves behind, read off its outcome.\<close>

fun returned :: "('r, 's) outcome \<Rightarrow> bool" where
  "returned (Returned r s) = True"
| "returned (Threw e s) = False"
| "returned Undefined = False"

fun thrown :: "('r, 's) outcome \<Rightarrow> exn option" where
  "thrown (Returned r s) = None"
| "thrown (Threw e s) = Some e"
| "thrown Undefined = None"

fun result_of :: "('r, 's) outcome \<Rightarrow> 'r option" where
  "result_of (Returned r s) = Some r"
| "result_of (Threw e s) = None"
| "result_of Undefined = None"

fun block_after :: "('r, 'a store) outcome \<Rightarrow> nat \<Rightarrow> 'a slot list option" where
  "block_after (Returned r s) b = heap s b"
| "block_after (Threw e s) b = heap s b"
| "block_after Undefined b = None"

fun vector_after :: "('r, 'a store) outcome \<Rightarrow> nat \<Rightarrow> vector option" where
  "vector_after (Returned r s) this = vectors s this"
| "vector_after (Threw e s) this = vectors s this"
| "vector_after Undefined this = None"

fun elements_after :: "('r, 'a store) outcome \<Rightarrow> nat \<Rightarrow> 'a slot list option" where
  "elements_after (Returned r s) this = map_option (elements s) (vectors s this)"
| "elements_after (Threw e s) this = map_option (elements s) (vectors s this)"
| "elements_after Undefined this = None"

text \<open>
  The call has a defined behaviour and, whether it returns or throws, it leaves a store that
  satisfies the invariant.
\<close>

fun invariant_after :: "('r, 'a store) outcome \<Rightarrow> bool" where
  "invariant_after (Returned r s) = store_inv s"
| "invariant_after (Threw e s) = store_inv s"
| "invariant_after Undefined = False"

section \<open>Example element types and stores\<close>

text \<open>
  An element type like \<^verbatim>\<open>int\<close>, of 4 bytes: nothing throws, a moved-from object keeps its
  value.
\<close>

definition int_env :: "int env" where
  "int_env =
     \<lparr>nothrow_move_constructible = True, copy_constructible = True, value_init = 0,
      moved_from = (\<lambda>v. v), value_init_throws = (\<lambda>i. False),
      copy_ctor_throws = (\<lambda>v. False), move_ctor_throws = (\<lambda>v. False),
      copy_assign_throws = (\<lambda>v. False), move_assign_throws = (\<lambda>v. False),
      alloc_fails = (\<lambda>n. False), sizeof_T = 4\<rparr>"

text \<open>
  A copyable element type whose move constructor is not \<^verbatim>\<open>noexcept\<close> and whose copy
  constructor throws when it copies the value \<open>bad\<close>.
\<close>

definition copy_throws_on :: "int \<Rightarrow> int env" where
  "copy_throws_on bad = int_env\<lparr>nothrow_move_constructible := False,
                                copy_ctor_throws := (\<lambda>v. v = bad)\<rparr>"

text \<open>An element type whose move assignment throws when it moves the value \<open>bad\<close>.\<close>

definition move_assign_throws_on :: "int \<Rightarrow> int env" where
  "move_assign_throws_on bad = int_env\<lparr>move_assign_throws := (\<lambda>v. v = bad)\<rparr>"

text \<open>
  The store with one vector, at address \<open>this\<close>, that holds \<open>xs\<close> in the block \<open>b\<close> of
  capacity \<open>c\<close>; and the store with a second vector next to it.
\<close>

definition vector_at :: "nat \<Rightarrow> 'a list \<Rightarrow> nat \<Rightarrow> vector" where
  "vector_at b xs c = \<lparr>m_data = \<lparr>m_buffer = b, m_capacity = c\<rparr>, m_size = length xs\<rparr>"

definition block_with :: "'a list \<Rightarrow> nat \<Rightarrow> 'a slot list" where
  "block_with xs c = map Live xs @ replicate (c - length xs) Raw"

definition one_vector :: "nat \<Rightarrow> nat \<Rightarrow> 'a list \<Rightarrow> nat \<Rightarrow> 'a store" where
  "one_vector this b xs c =
     \<lparr>heap = (\<lambda>a. None)(b \<mapsto> block_with xs c), next_block = Suc b,
      vectors = (\<lambda>a. None)(this \<mapsto> vector_at b xs c)\<rparr>"

definition two_vectors :: "'a list \<Rightarrow> 'a list \<Rightarrow> 'a store" where
  "two_vectors xs ys =
     \<lparr>heap = (\<lambda>a. None)(1 \<mapsto> block_with xs (length xs), 2 \<mapsto> block_with ys (length ys)),
      next_block = 3,
      vectors = (\<lambda>a. None)(10 \<mapsto> vector_at 1 xs (length xs), 20 \<mapsto> vector_at 2 ys (length ys))\<rparr>"

text \<open>
  Whether the transfer \<^verbatim>\<open>CopyOrMoveData\<close> chooses for the element type throws on a value;
  the store after an operation that changed a vector within its block; and the store after
  one that moved it to a new block of capacity \<open>c\<close> and released the old block \<open>b\<close>.
\<close>

definition transfer_throws :: "'a env \<Rightarrow> 'a \<Rightarrow> bool" where
  "transfer_throws E x =
     (if nothrow_move_constructible E \<or> \<not> copy_constructible E
      then move_ctor_throws E x else copy_ctor_throws E x)"

definition in_place :: "nat \<Rightarrow> nat \<Rightarrow> 'a list \<Rightarrow> nat \<Rightarrow> 'a store \<Rightarrow> 'a store" where
  "in_place this b ys c st =
     put_vector this (vector_at b ys c) (set_block b (block_with ys c) st)"

definition reallocated :: "nat \<Rightarrow> nat \<Rightarrow> 'a list \<Rightarrow> nat \<Rightarrow> 'a store \<Rightarrow> 'a store" where
  "reallocated this b ys c st =
     release b
       (put_vector this (vector_at (next_block st) ys c)
          (set_block (next_block st) (block_with ys c) (new_block c st)))"

text \<open>No copy or move, construction or assignment, of the element type throws on the value.\<close>

definition never_throws :: "'a env \<Rightarrow> 'a \<Rightarrow> bool" where
  "never_throws E x \<longleftrightarrow>
     \<not> copy_ctor_throws E x \<and> \<not> move_ctor_throws E x \<and>
     \<not> copy_assign_throws E x \<and> \<not> move_assign_throws E x"

text \<open>\<^verbatim>\<open>PushBack(const T&)\<close> of the values of a list, one call after the other.\<close>

fun PushBack_all :: "'a env \<Rightarrow> nat \<Rightarrow> 'a list \<Rightarrow> 'a store \<Rightarrow> (unit, 'a store) outcome" where
  "PushBack_all E this [] st = Returned () st"
| "PushBack_all E this (x # xs) st =
     and_then (PushBack_copy E this x st) (\<lambda>_ st1. PushBack_all E this xs st1)"


text \<open>The store with one vector, default-constructed at \<open>this\<close>.\<close>

definition empty_vector_store :: "nat \<Rightarrow> 'a store" where
  "empty_vector_store this =
     \<lparr>heap = (\<lambda>a. None), next_block = 1,
      vectors = (\<lambda>a. None)(this \<mapsto> \<lparr>m_data = RawMemory_default, m_size = 0\<rparr>)\<rparr>"

section \<open>Auxiliary lemmas\<close>

subsection \<open>Blocks and loops\<close>

lemma length_overwrite [simp]: "off + length xs \<le> length blk \<Longrightarrow> length (overwrite blk off xs) = length blk"
  by (simp add: overwrite_def)

lemma nth_overwrite:
  "off + length xs \<le> length blk \<Longrightarrow> i < length blk \<Longrightarrow>
   overwrite blk off xs ! i = (if off \<le> i \<and> i < off + length xs then xs ! (i - off) else blk ! i)"
  by (auto simp: overwrite_def nth_append min_def)

lemma overwrite_Nil [simp]: "overwrite blk off [] = blk"
  by (simp add: overwrite_def)

lemma overwrite_snoc:
  assumes "off + length xs < length blk"
  shows "(overwrite blk off xs)[off + length xs := y] = overwrite blk off (xs @ [y])"
proof (rule nth_equalityI)
  show "length ((overwrite blk off xs)[off + length xs := y]) = length (overwrite blk off (xs @ [y]))"
    using assms by simp
next
  fix i assume "i < length ((overwrite blk off xs)[off + length xs := y])"
  with assms have i: "i < length blk" by simp
  show "(overwrite blk off xs)[off + length xs := y] ! i = overwrite blk off (xs @ [y]) ! i"
    using assms i by (auto simp: nth_overwrite nth_list_update nth_append)
qed

lemma overwrite_cons:
  assumes "off + length xs < length blk"
  shows "overwrite (blk[off := y]) (Suc off) xs = overwrite blk off (y # xs)"
proof (rule nth_equalityI)
  show "length (overwrite (blk[off := y]) (Suc off) xs) = length (overwrite blk off (y # xs))"
    using assms by simp
next
  fix i assume "i < length (overwrite (blk[off := y]) (Suc off) xs)"
  with assms have i: "i < length blk" by simp
  show "overwrite (blk[off := y]) (Suc off) xs ! i = overwrite blk off (y # xs) ! i"
    using assms i by (auto simp: nth_overwrite nth_list_update nth_Cons')
qed

lemma slot_at_block:
  "heap st b = Some blk \<Longrightarrow> slot_at st (b, i) = (if i < length blk then Some (blk ! i) else None)"
  by (simp add: slot_at_def)

lemma put_slot_block:
  "heap st b = Some blk \<Longrightarrow> put_slot (b, i) x st = set_block b (blk[i := x]) st"
  by (simp add: put_slot_def set_block_def)

lemma heap_set_block [simp]: "heap (set_block b blk st) = (heap st)(b \<mapsto> blk)"
  and next_block_set_block [simp]: "next_block (set_block b blk st) = next_block st"
  and vectors_set_block [simp]: "vectors (set_block b blk st) = vectors st"
  by (simp_all add: set_block_def)

lemma set_block_set_block [simp]: "set_block b blk' (set_block b blk st) = set_block b blk' st"
  by (simp add: set_block_def)

lemma set_block_same: "heap st b = Some blk \<Longrightarrow> set_block b blk st = st"
  by (simp add: set_block_def map_upd_triv)

lemma Destroy_block:
  "heap st b = Some blk \<Longrightarrow> i < length blk \<Longrightarrow> is_live (blk ! i) \<Longrightarrow>
   Destroy (b, i) st = Returned () (set_block b (blk[i := Raw]) st)"
  by (cases "blk ! i") (simp_all add: Destroy_def slot_at_block put_slot_block)

lemma construct_at_block:
  "heap st b = Some blk \<Longrightarrow> i < length blk \<Longrightarrow> blk ! i = Raw \<Longrightarrow>
   construct_at (b, i) x st = Returned () (set_block b (blk[i := Live x]) st)"
  by (simp add: construct_at_def slot_at_block put_slot_block)

lemma DestroyN_block:
  "heap st b = Some blk \<Longrightarrow> off + n \<le> length blk \<Longrightarrow>
   \<forall>j<n. is_live (blk ! (off + j)) \<Longrightarrow>
   DestroyN (b, off) n st = Returned () (set_block b (overwrite blk off (replicate n Raw)) st)"
proof (induction n arbitrary: off blk st)
  case 0
  then show ?case by (simp add: set_block_same)
next
  case (Suc n)
  from Suc.prems have off: "off < length blk" and live: "is_live (blk ! off)"
    by (simp, metis add.right_neutral zero_less_Suc)
  let ?blk = "blk[off := Raw]"
  let ?st = "set_block b ?blk st"
  have step: "Destroy (b, off) st = Returned () ?st"
    using Suc.prems(1) off live by (rule Destroy_block)
  have "DestroyN (b, Suc off) n ?st =
          Returned () (set_block b (overwrite ?blk (Suc off) (replicate n Raw)) ?st)"
  proof (rule Suc.IH)
    show "heap ?st b = Some ?blk" by simp
    show "Suc off + n \<le> length ?blk" using Suc.prems by simp
    show "\<forall>j<n. is_live (?blk ! (Suc off + j))"
      using Suc.prems(2,3) by (auto simp: nth_list_update)
  qed
  moreover have "overwrite ?blk (Suc off) (replicate n Raw) = overwrite blk off (replicate (Suc n) Raw)"
    using Suc.prems(2) by (simp add: overwrite_cons)
  ultimately show ?case using step by simp
qed


lemma overwrite_raw_tail:
  assumes "off + i < length blk" "blk ! (off + i) = Raw"
  shows "overwrite (blk[off + i := y]) off (replicate (Suc i) Raw) = overwrite blk off (replicate i Raw)"
proof (rule nth_equalityI)
  show "length (overwrite (blk[off + i := y]) off (replicate (Suc i) Raw)) =
        length (overwrite blk off (replicate i Raw))"
    using assms by simp
next
  fix k assume "k < length (overwrite (blk[off + i := y]) off (replicate (Suc i) Raw))"
  with assms have k: "k < length blk" by simp
  show "overwrite (blk[off + i := y]) off (replicate (Suc i) Raw) ! k =
        overwrite blk off (replicate i Raw) ! k"
    using assms k by (auto simp: nth_overwrite nth_list_update simp del: replicate_Suc)
qed

lemma ex_range_Suc:
  assumes "\<not> P i"
  shows "(\<exists>k. i \<le> k \<and> k < i + Suc m \<and> P k) = (\<exists>k. Suc i \<le> k \<and> k < Suc i + m \<and> P (k::nat))"
proof
  assume "\<exists>k. i \<le> k \<and> k < i + Suc m \<and> P k"
  then obtain k where k: "i \<le> k" "k < i + Suc m" "P k" by blast
  with assms have "k \<noteq> i" by auto
  with k show "\<exists>k. Suc i \<le> k \<and> k < Suc i + m \<and> P k" by (intro exI[of _ k]) simp
next
  assume "\<exists>k. Suc i \<le> k \<and> k < Suc i + m \<and> P k"
  then obtain k where k: "Suc i \<le> k" "k < Suc i + m" "P k" by blast
  then show "\<exists>k. i \<le> k \<and> k < i + Suc m \<and> P k" by (intro exI[of _ k]) simp
qed

lemma uninit_value_construct_from_block:
  "heap st b = Some blk \<Longrightarrow> off + i + m \<le> length blk \<Longrightarrow>
   \<forall>j<m. blk ! (off + i + j) = Raw \<Longrightarrow> \<forall>j<i. is_live (blk ! (off + j)) \<Longrightarrow>
   uninit_value_construct_from E (b, off) i m st =
     (if \<exists>k. i \<le> k \<and> k < i + m \<and> value_init_throws E k
      then Threw elem_exn (set_block b (overwrite blk off (replicate i Raw)) st)
      else Returned () (set_block b (overwrite blk (off + i) (replicate m (Live (value_init E)))) st))"
proof (induction m arbitrary: i blk st)
  case 0
  then show ?case by (simp add: set_block_same)
next
  case (Suc m)
  have raw: "blk ! (off + i) = Raw" and lt: "off + i < length blk"
    using Suc.prems(2,3) by (metis add.right_neutral zero_less_Suc, simp)
  show ?case
  proof (cases "value_init_throws E i")
    case True
    have "DestroyN (b, off) i st = Returned () (set_block b (overwrite blk off (replicate i Raw)) st)"
      using Suc.prems by (intro DestroyN_block) auto
    moreover have "\<exists>k. i \<le> k \<and> k < i + Suc m \<and> value_init_throws E k"
      using True by (intro exI[of _ i]) simp
    ultimately show ?thesis using True by simp
  next
    case False
    let ?blk = "blk[off + i := Live (value_init E)]"
    let ?st = "set_block b ?blk st"
    have step: "construct_at (b, off + i) (value_init E) st = Returned () ?st"
      using Suc.prems(1) lt raw by (rule construct_at_block)
    have IH: "uninit_value_construct_from E (b, off) (Suc i) m ?st =
      (if \<exists>k. Suc i \<le> k \<and> k < Suc i + m \<and> value_init_throws E k
       then Threw elem_exn (set_block b (overwrite ?blk off (replicate (Suc i) Raw)) ?st)
       else Returned () (set_block b (overwrite ?blk (off + Suc i) (replicate m (Live (value_init E)))) ?st))"
    proof (rule Suc.IH)
      show "heap ?st b = Some ?blk" by simp
      show "off + Suc i + m \<le> length ?blk" using Suc.prems by simp
      show "\<forall>j<m. ?blk ! (off + Suc i + j) = Raw"
        using Suc.prems(2,3) by (auto simp: nth_list_update)
      show "\<forall>j<Suc i. is_live (?blk ! (off + j))"
        using Suc.prems(4) lt by (auto simp: nth_list_update less_Suc_eq)
    qed
    have c: "(\<exists>k. i \<le> k \<and> k < i + Suc m \<and> value_init_throws E k) =
             (\<exists>k. Suc i \<le> k \<and> k < Suc i + m \<and> value_init_throws E k)"
      using False by (rule ex_range_Suc)
    have e1: "overwrite ?blk off (replicate (Suc i) Raw) = overwrite blk off (replicate i Raw)"
      using lt raw by (rule overwrite_raw_tail)
    have e2: "overwrite ?blk (off + Suc i) (replicate m (Live (value_init E))) =
              overwrite blk (off + i) (replicate (Suc m) (Live (value_init E)))"
      using Suc.prems(2) overwrite_cons[of "off + i" "replicate m (Live (value_init E))" blk] by simp
    have "uninit_value_construct_from E (b, off) i (Suc m) st =
          uninit_value_construct_from E (b, off) (Suc i) m ?st"
      using False step by simp
    also note IH
    finally show ?thesis
      by (simp only: c[symmetric] e1 e2 set_block_set_block)
  qed
qed

lemma uninit_copy_from_block:
  "heap st s = Some sblk \<Longrightarrow> heap st d = Some dblk \<Longrightarrow> s \<noteq> d \<Longrightarrow>
   p + i + length vs \<le> length sblk \<Longrightarrow> \<forall>j<length vs. sblk ! (p + i + j) = Live (vs ! j) \<Longrightarrow>
   q + i + length vs \<le> length dblk \<Longrightarrow> \<forall>j<length vs. dblk ! (q + i + j) = Raw \<Longrightarrow>
   \<forall>j<i. is_live (dblk ! (q + j)) \<Longrightarrow>
   uninit_copy_from E (s, p) (d, q) i (length vs) st =
     (if \<exists>v\<in>set vs. copy_ctor_throws E v
      then Threw elem_exn (set_block d (overwrite dblk q (replicate i Raw)) st)
      else Returned () (set_block d (overwrite dblk (q + i) (map Live vs)) st))"
proof (induction vs arbitrary: i dblk st)
  case Nil
  then show ?case by (simp add: set_block_same)
next
  case (Cons v vs)
  have src: "sblk ! (p + i) = Live v" and slt: "p + i < length sblk"
    using Cons.prems(4,5) by (force, simp)
  have raw: "dblk ! (q + i) = Raw" and lt: "q + i < length dblk"
    using Cons.prems(6,7) by (force, simp)
  show ?case
  proof (cases "copy_ctor_throws E v")
    case True
    have "DestroyN (d, q) i st = Returned () (set_block d (overwrite dblk q (replicate i Raw)) st)"
      using Cons.prems by (intro DestroyN_block) auto
    then show ?thesis
      using True src slt Cons.prems(1) by (simp add: copy_construct_def slot_at_block)
  next
    case False
    let ?blk = "dblk[q + i := Live v]"
    let ?st = "set_block d ?blk st"
    have step: "copy_construct E (s, p + i) (d, q + i) st = Returned () ?st"
      using False src slt Cons.prems(1,2) lt raw
      by (simp add: copy_construct_def slot_at_block construct_at_block)
    have IH: "uninit_copy_from E (s, p) (d, q) (Suc i) (length vs) ?st =
      (if \<exists>v\<in>set vs. copy_ctor_throws E v
       then Threw elem_exn (set_block d (overwrite ?blk q (replicate (Suc i) Raw)) ?st)
       else Returned () (set_block d (overwrite ?blk (q + Suc i) (map Live vs)) ?st))"
    proof (rule Cons.IH)
      show "heap ?st s = Some sblk" using Cons.prems(1,3) by simp
      show "heap ?st d = Some ?blk" by simp
      show "s \<noteq> d" by fact
      show "p + Suc i + length vs \<le> length sblk" using Cons.prems(4) by simp
      show "\<forall>j<length vs. sblk ! (p + Suc i + j) = Live (vs ! j)"
        using Cons.prems(5) by force
      show "q + Suc i + length vs \<le> length ?blk" using Cons.prems(6) by simp
      show "\<forall>j<length vs. ?blk ! (q + Suc i + j) = Raw"
        using Cons.prems(6,7) by (auto simp: nth_list_update)
      show "\<forall>j<Suc i. is_live (?blk ! (q + j))"
        using Cons.prems(8) lt by (auto simp: nth_list_update less_Suc_eq)
    qed
    have e1: "overwrite ?blk q (replicate (Suc i) Raw) = overwrite dblk q (replicate i Raw)"
      using lt raw by (rule overwrite_raw_tail)
    have e2: "overwrite ?blk (q + Suc i) (map Live vs) = overwrite dblk (q + i) (map Live (v # vs))"
      using Cons.prems(6) overwrite_cons[of "q + i" "map Live vs" dblk] by simp
    have c: "(\<exists>w\<in>set (v # vs). copy_ctor_throws E w) = (\<exists>w\<in>set vs. copy_ctor_throws E w)"
      using False by simp
    have "uninit_copy_from E (s, p) (d, q) i (length (v # vs)) st =
          uninit_copy_from E (s, p) (d, q) (Suc i) (length vs) ?st"
      using step by simp
    also note IH
    finally show ?thesis
      by (simp only: c e1 e2 set_block_set_block)
  qed
qed


lemma set_block_absorb:
  "set_block a x (set_block b y (set_block a z st)) = set_block a x (set_block b y st)"
  by (cases "a = b") (simp_all add: set_block_def fun_upd_twist)

lemma set_block_commute:
  "a \<noteq> b \<Longrightarrow> set_block a x (set_block b y st) = set_block b y (set_block a x st)"
  by (simp add: set_block_def fun_upd_twist)

lemma takeWhile_length_less: "length (takeWhile P xs) < length xs \<longleftrightarrow> (\<exists>x\<in>set xs. \<not> P x)"
  by (induction xs) auto

lemma uninit_move_from_block:
  "heap st s = Some sblk \<Longrightarrow> heap st d = Some dblk \<Longrightarrow> s \<noteq> d \<Longrightarrow>
   p + i + length vs \<le> length sblk \<Longrightarrow> \<forall>j<length vs. sblk ! (p + i + j) = Live (vs ! j) \<Longrightarrow>
   q + i + length vs \<le> length dblk \<Longrightarrow> \<forall>j<length vs. dblk ! (q + i + j) = Raw \<Longrightarrow>
   \<forall>j<i. is_live (dblk ! (q + j)) \<Longrightarrow>
   uninit_move_from E (s, p) (d, q) i (length vs) st =
     (if length (takeWhile (\<lambda>v. \<not> move_ctor_throws E v) vs) < length vs
      then Threw elem_exn
             (set_block d (overwrite dblk q (replicate i Raw))
               (set_block s (overwrite sblk (p + i)
                  (map (\<lambda>v. Live (moved_from E v)) (takeWhile (\<lambda>v. \<not> move_ctor_throws E v) vs))) st))
      else Returned ()
             (set_block d (overwrite dblk (q + i) (map Live vs))
               (set_block s (overwrite sblk (p + i)
                  (map (\<lambda>v. Live (moved_from E v)) (takeWhile (\<lambda>v. \<not> move_ctor_throws E v) vs))) st)))"
proof (induction vs arbitrary: i sblk dblk st)
  case Nil
  then show ?case by (simp add: set_block_same)
next
  case (Cons v vs)
  let ?ok = "takeWhile (\<lambda>v. \<not> move_ctor_throws E v)"
  let ?mf = "map (\<lambda>v. Live (moved_from E v))"
  have src: "sblk ! (p + i) = Live v" and slt: "p + i < length sblk"
    using Cons.prems(4,5) by (force, simp)
  have raw: "dblk ! (q + i) = Raw" and lt: "q + i < length dblk"
    using Cons.prems(6,7) by (force, simp)
  show ?case
  proof (cases "move_ctor_throws E v")
    case True
    have "DestroyN (d, q) i st = Returned () (set_block d (overwrite dblk q (replicate i Raw)) st)"
      using Cons.prems by (intro DestroyN_block) auto
    then show ?thesis
      using True src slt Cons.prems(1)
      by (simp add: move_construct_def slot_at_block set_block_same)
  next
    case False
    let ?dblk = "dblk[q + i := Live v]"
    let ?sblk = "sblk[p + i := Live (moved_from E v)]"
    let ?st = "set_block s ?sblk (set_block d ?dblk st)"
    have step: "move_construct E (s, p + i) (d, q + i) st = Returned () ?st"
      using False src slt Cons.prems(1,2,3) lt raw
      by (simp add: move_construct_def slot_at_block construct_at_block put_slot_block)
    have IH: "uninit_move_from E (s, p) (d, q) (Suc i) (length vs) ?st =
      (if length (?ok vs) < length vs
       then Threw elem_exn
              (set_block d (overwrite ?dblk q (replicate (Suc i) Raw))
                (set_block s (overwrite ?sblk (p + Suc i) (?mf (?ok vs))) ?st))
       else Returned ()
              (set_block d (overwrite ?dblk (q + Suc i) (map Live vs))
                (set_block s (overwrite ?sblk (p + Suc i) (?mf (?ok vs))) ?st)))"
    proof (rule Cons.IH)
      show "heap ?st s = Some ?sblk" by simp
      show "heap ?st d = Some ?dblk" using Cons.prems(3) by simp
      show "s \<noteq> d" by fact
      show "p + Suc i + length vs \<le> length ?sblk" using Cons.prems(4) by simp
      show "\<forall>j<length vs. ?sblk ! (p + Suc i + j) = Live (vs ! j)"
        using Cons.prems(4,5) by (auto simp: nth_list_update)
      show "q + Suc i + length vs \<le> length ?dblk" using Cons.prems(6) by simp
      show "\<forall>j<length vs. ?dblk ! (q + Suc i + j) = Raw"
        using Cons.prems(6,7) by (auto simp: nth_list_update)
      show "\<forall>j<Suc i. is_live (?dblk ! (q + j))"
        using Cons.prems(8) lt by (auto simp: nth_list_update less_Suc_eq)
    qed
    have lok: "length (?ok vs) \<le> length vs" by (rule length_takeWhile_le)
    have e1: "overwrite ?dblk q (replicate (Suc i) Raw) = overwrite dblk q (replicate i Raw)"
      using lt raw by (rule overwrite_raw_tail)
    have e2: "overwrite ?dblk (q + Suc i) (map Live vs) = overwrite dblk (q + i) (map Live (v # vs))"
      using Cons.prems(6) overwrite_cons[of "q + i" "map Live vs" dblk] by simp
    have e3: "overwrite ?sblk (p + Suc i) (?mf (?ok vs)) = overwrite sblk (p + i) (?mf (?ok (v # vs)))"
      using Cons.prems(4) lok False overwrite_cons[of "p + i" "?mf (?ok vs)" sblk] by simp
    have c: "(length (?ok (v # vs)) < length (v # vs)) = (length (?ok vs) < length vs)"
      using False by simp
    have n: "\<And>D S. set_block d D (set_block s S ?st) = set_block d D (set_block s S st)"
      using Cons.prems(3) by (simp add: set_block_def fun_upd_twist)
    have "uninit_move_from E (s, p) (d, q) i (length (v # vs)) st =
          uninit_move_from E (s, p) (d, q) (Suc i) (length vs) ?st"
      using step by simp
    also note IH
    finally show ?thesis
      by (simp only: c e1 e2 e3 n)
  qed
qed

lemma copy_loop_block:
  "heap st s = Some sblk \<Longrightarrow> heap st d = Some dblk \<Longrightarrow> s \<noteq> d \<Longrightarrow>
   p + length vs \<le> length sblk \<Longrightarrow> \<forall>j<length vs. sblk ! (p + j) = Live (vs ! j) \<Longrightarrow>
   q + length vs \<le> length dblk \<Longrightarrow> \<forall>j<length vs. is_live (dblk ! (q + j)) \<Longrightarrow>
   copy_loop E (s, p) (d, q) (length vs) st =
     (if length (takeWhile (\<lambda>v. \<not> copy_assign_throws E v) vs) < length vs
      then Threw elem_exn
             (set_block d (overwrite dblk q (map Live (takeWhile (\<lambda>v. \<not> copy_assign_throws E v) vs))) st)
      else Returned ()
             (set_block d (overwrite dblk q (map Live (takeWhile (\<lambda>v. \<not> copy_assign_throws E v) vs))) st))"
proof (induction vs arbitrary: p q dblk st)
  case Nil
  then show ?case by (simp add: set_block_same)
next
  case (Cons v vs)
  let ?ok = "takeWhile (\<lambda>v. \<not> copy_assign_throws E v)"
  have src: "sblk ! p = Live v" and slt: "p < length sblk"
    using Cons.prems(4,5) by (force, simp)
  have live: "is_live (dblk ! q)" and lt: "q < length dblk"
    using Cons.prems(6,7) by (force, simp)
  then obtain w where w: "dblk ! q = Live w" by (cases "dblk ! q") auto
  show ?case
  proof (cases "copy_assign_throws E v")
    case True
    then show ?thesis
      using src slt lt w Cons.prems(1,2)
      by (simp add: copy_assign_elem_def assign_value_def slot_at_block set_block_same)
  next
    case False
    let ?dblk = "dblk[q := Live v]"
    let ?st = "set_block d ?dblk st"
    have step: "copy_assign_elem E (s, p) (d, q) st = Returned () ?st"
      using False src slt Cons.prems(1,2) lt w
      by (simp add: copy_assign_elem_def assign_value_def slot_at_block put_slot_block)
    have IH: "copy_loop E (s, Suc p) (d, Suc q) (length vs) ?st =
      (if length (?ok vs) < length vs
       then Threw elem_exn (set_block d (overwrite ?dblk (Suc q) (map Live (?ok vs))) ?st)
       else Returned () (set_block d (overwrite ?dblk (Suc q) (map Live (?ok vs))) ?st))"
    proof (rule Cons.IH)
      show "heap ?st s = Some sblk" using Cons.prems(1,3) by simp
      show "heap ?st d = Some ?dblk" by simp
      show "s \<noteq> d" by fact
      show "Suc p + length vs \<le> length sblk" using Cons.prems(4) by simp
      show "\<forall>j<length vs. sblk ! (Suc p + j) = Live (vs ! j)"
        using Cons.prems(5) by force
      show "Suc q + length vs \<le> length ?dblk" using Cons.prems(6) by simp
      show "\<forall>j<length vs. is_live (?dblk ! (Suc q + j))"
        using Cons.prems(6,7) by (auto simp: nth_list_update)
    qed
    have lok: "length (?ok vs) \<le> length vs" by (rule length_takeWhile_le)
    have e: "overwrite ?dblk (Suc q) (map Live (?ok vs)) = overwrite dblk q (map Live (?ok (v # vs)))"
      using Cons.prems(6) lok False overwrite_cons[of q "map Live (?ok vs)" dblk] by simp
    have c: "(length (?ok (v # vs)) < length (v # vs)) = (length (?ok vs) < length vs)"
      using False by simp
    have "copy_loop E (s, p) (d, q) (length (v # vs)) st =
          copy_loop E (s, Suc p) (d, Suc q) (length vs) ?st"
      using step by simp
    also note IH
    finally show ?thesis
      by (simp only: c e set_block_set_block)
  qed
qed


lemma overwrite_same: "p < length blk \<Longrightarrow> overwrite blk p [blk ! p] = blk"
  by (simp add: overwrite_def id_take_nth_drop[symmetric])

lemma move_assign_elem_block:
  "heap st b = Some blk \<Longrightarrow> i < length blk \<Longrightarrow> blk ! i = Live v \<Longrightarrow>
   k < length blk \<Longrightarrow> is_live (blk ! k) \<Longrightarrow> \<not> move_assign_throws E v \<Longrightarrow>
   move_assign_elem E (b, i) (b, k) st =
     Returned () (set_block b (blk[k := Live v, i := Live (moved_from E v)]) st)"
  by (cases "blk ! k")
     (simp_all add: move_assign_elem_def assign_value_def slot_at_block put_slot_block)

lemma move_loop_block:
  "heap st b = Some blk \<Longrightarrow> Suc (p + length vs) \<le> length blk \<Longrightarrow> is_live (blk ! p) \<Longrightarrow>
   \<forall>j<length vs. blk ! (Suc p + j) = Live (vs ! j) \<Longrightarrow>
   \<forall>v\<in>set vs. \<not> move_assign_throws E v \<Longrightarrow>
   \<exists>r. move_loop E (b, Suc p) (b, p) (length vs) st =
         Returned () (set_block b (overwrite blk p (map Live vs @ [Live r])) st)"
proof (induction vs arbitrary: p blk st)
  case Nil
  then obtain r where "blk ! p = Live r" by (cases "blk ! p") auto
  with Nil show ?case
    using overwrite_same[of p blk] by (auto simp: set_block_same intro!: exI[of _ r])
next
  case (Cons v vs)
  let ?blk = "blk[p := Live v, Suc p := Live (moved_from E v)]"
  let ?st = "set_block b ?blk st"
  have src: "blk ! Suc p = Live v" using Cons.prems(4) by force
  have step: "move_assign_elem E (b, Suc p) (b, p) st = Returned () ?st"
    using Cons.prems src by (intro move_assign_elem_block) auto
  have "\<exists>r. move_loop E (b, Suc (Suc p)) (b, Suc p) (length vs) ?st =
          Returned () (set_block b (overwrite ?blk (Suc p) (map Live vs @ [Live r])) ?st)"
  proof (rule Cons.IH)
    show "heap ?st b = Some ?blk" by simp
    show "Suc (Suc p + length vs) \<le> length ?blk" using Cons.prems(2) by simp
    show "is_live (?blk ! Suc p)" using Cons.prems(2) by simp
    show "\<forall>j<length vs. ?blk ! (Suc (Suc p) + j) = Live (vs ! j)"
      using Cons.prems(2,4) by (auto simp: nth_list_update)
    show "\<forall>v\<in>set vs. \<not> move_assign_throws E v" using Cons.prems(5) by simp
  qed
  then obtain r where r: "move_loop E (b, Suc (Suc p)) (b, Suc p) (length vs) ?st =
          Returned () (set_block b (overwrite ?blk (Suc p) (map Live vs @ [Live r])) ?st)" ..
  have e: "overwrite ?blk (Suc p) (map Live vs @ [Live r]) =
           overwrite blk p (map Live (v # vs) @ [Live r])"
  proof (rule nth_equalityI)
    show "length (overwrite ?blk (Suc p) (map Live vs @ [Live r])) =
          length (overwrite blk p (map Live (v # vs) @ [Live r]))"
      using Cons.prems(2) by simp
  next
    fix i assume "i < length (overwrite ?blk (Suc p) (map Live vs @ [Live r]))"
    with Cons.prems(2) have i: "i < length blk" by simp
    show "overwrite ?blk (Suc p) (map Live vs @ [Live r]) ! i =
          overwrite blk p (map Live (v # vs) @ [Live r]) ! i"
      using Cons.prems(2) i by (auto simp: nth_overwrite nth_list_update nth_Cons' nth_append)
  qed
  show ?case
    using step r by (auto simp: e intro!: exI[of _ r])
qed

lemma move_backward_loop_block:
  "heap st b = Some blk \<Longrightarrow> lo + length vs < length blk \<Longrightarrow> is_live (blk ! (lo + length vs)) \<Longrightarrow>
   \<forall>j<length vs. blk ! (lo + j) = Live (vs ! j) \<Longrightarrow>
   \<forall>v\<in>set vs. \<not> move_assign_throws E v \<Longrightarrow>
   \<exists>r. move_backward_loop E (b, lo + length vs) (b, Suc (lo + length vs)) (length vs) st =
         Returned () (set_block b (overwrite blk lo (Live r # map Live vs)) st)"
proof (induction vs arbitrary: blk st rule: rev_induct)
  case Nil
  then obtain r where "blk ! lo = Live r" by (cases "blk ! lo") auto
  with Nil show ?case
    using overwrite_same[of lo blk] by (auto simp: set_block_same intro!: exI[of _ r])
next
  case (snoc v vs)
  let ?n = "length vs"
  let ?blk = "blk[Suc (lo + ?n) := Live v, lo + ?n := Live (moved_from E v)]"
  let ?st = "set_block b ?blk st"
  have src: "blk ! (lo + ?n) = Live v"
    using snoc.prems(4) by (metis length_append_singleton lessI nth_append_length)
  have step: "move_assign_elem E (b, lo + ?n) (b, Suc (lo + ?n)) st = Returned () ?st"
    using snoc.prems src by (intro move_assign_elem_block) auto
  have "\<exists>r. move_backward_loop E (b, lo + ?n) (b, Suc (lo + ?n)) ?n ?st =
          Returned () (set_block b (overwrite ?blk lo (Live r # map Live vs)) ?st)"
  proof (rule snoc.IH)
    show "heap ?st b = Some ?blk" by simp
    show "lo + ?n < length ?blk" using snoc.prems(2) by simp
    show "is_live (?blk ! (lo + ?n))" using snoc.prems(2) by simp
    show "\<forall>j<?n. ?blk ! (lo + j) = Live (vs ! j)"
      using snoc.prems(2,4) by (auto simp: nth_list_update nth_append)
    show "\<forall>v\<in>set vs. \<not> move_assign_throws E v" using snoc.prems(5) by simp
  qed
  then obtain r where r: "move_backward_loop E (b, lo + ?n) (b, Suc (lo + ?n)) ?n ?st =
          Returned () (set_block b (overwrite ?blk lo (Live r # map Live vs)) ?st)" ..
  have e: "overwrite ?blk lo (Live r # map Live vs) = overwrite blk lo (Live r # map Live (vs @ [v]))"
  proof (rule nth_equalityI)
    show "length (overwrite ?blk lo (Live r # map Live vs)) =
          length (overwrite blk lo (Live r # map Live (vs @ [v])))"
      using snoc.prems(2) by simp
  next
    fix i assume "i < length (overwrite ?blk lo (Live r # map Live vs))"
    with snoc.prems(2) have i: "i < length blk" by simp
    show "overwrite ?blk lo (Live r # map Live vs) ! i =
          overwrite blk lo (Live r # map Live (vs @ [v])) ! i"
      using snoc.prems(2) i by (auto simp: nth_overwrite nth_list_update nth_Cons' nth_append)
  qed
  show ?case
    using step r by (auto simp: e intro!: exI[of _ r])
qed



subsection \<open>Stores, allocation and the transfer to a new block\<close>

lemma heap_put_vector [simp]: "heap (put_vector this v st) = heap st"
  and next_block_put_vector [simp]: "next_block (put_vector this v st) = next_block st"
  and vectors_put_vector [simp]: "vectors (put_vector this v st) = (vectors st)(this \<mapsto> v)"
  by (simp_all add: put_vector_def)

lemma heap_new_block [simp]: "heap (new_block n st) = (heap st)(next_block st \<mapsto> replicate n Raw)"
  and next_block_new_block [simp]: "next_block (new_block n st) = Suc (next_block st)"
  and vectors_new_block [simp]: "vectors (new_block n st) = vectors st"
  by (simp_all add: new_block_def)

lemma heap_release [simp]: "heap (release b st) = (if b = 0 then heap st else (heap st)(b := None))"
  and next_block_release [simp]: "next_block (release b st) = next_block st"
  and vectors_release [simp]: "vectors (release b st) = vectors st"
  by (simp_all add: release_def)

lemma vector_data_update [simp]: "v\<lparr>m_data := d\<rparr> = \<lparr>m_data = d, m_size = m_size v\<rparr>"
  by (cases v) simp

lemma vector_size_update [simp]: "v\<lparr>m_size := n\<rparr> = \<lparr>m_data = m_data v, m_size = n\<rparr>"
  by (cases v) simp

lemma store_eqI:
  fixes st st' :: "'a store"
  shows "heap st = heap st' \<Longrightarrow> next_block st = next_block st' \<Longrightarrow> vectors st = vectors st' \<Longrightarrow> st = st'"
  by simp

lemma put_vector_set_block: "put_vector this v (set_block b blk st) = set_block b blk (put_vector this v st)"
  by (simp add: put_vector_def set_block_def)


lemma Deallocate_release:
  "b = 0 \<or> heap st b \<noteq> None \<Longrightarrow> Deallocate b st = Returned () (release b st)"
  by (auto simp: Deallocate_def release_def)

lemma size_t_mul_code [code]:
  "size_t_mul a b = nat ((int a * int b) mod 18446744073709551616)"
  by (simp add: size_t_mul_def nat_mod_distrib nat_mult_distrib zmod_int)

lemma bytes_fit_slots: "bytes_fit E n \<Longrightarrow> size_t_mul n (sizeof_T E) div sizeof_T E = n"
  by (simp add: bytes_fit_def size_t_mul_def)

lemma bytes_fit_mono: "bytes_fit E n \<Longrightarrow> m \<le> n \<Longrightarrow> bytes_fit E m"
  unfolding bytes_fit_def
  by (metis le_less_trans mult_le_mono1)

lemma bytes_fit_int_env [simp]: "bytes_fit int_env n \<longleftrightarrow> n < 2 ^ 62"
  by (auto simp: bytes_fit_def int_env_def)

lemma RawMemory_closed:
  "bytes_fit E n \<Longrightarrow>
   RawMemory E n st =
     (if n = 0 then Returned \<lparr>m_buffer = 0, m_capacity = 0\<rparr> st
      else if alloc_fails E n then Threw bad_alloc st
      else Returned \<lparr>m_buffer = next_block st, m_capacity = n\<rparr> (new_block n st))"
  by (simp add: RawMemory_def Allocate_def new_block_def bytes_fit_slots)

lemma block_with_length [simp]: "length xs \<le> c \<Longrightarrow> length (block_with xs c) = c"
  by (simp add: block_with_def)

lemma nth_block_with:
  "i < c \<Longrightarrow> length xs \<le> c \<Longrightarrow> block_with xs c ! i = (if i < length xs then Live (xs ! i) else Raw)"
  by (simp add: block_with_def nth_append)

lemma owns_block:
  "owns st v xs \<Longrightarrow> Capacity v \<noteq> 0 \<Longrightarrow>
   heap st (m_buffer (m_data v)) = Some (block_with xs (Capacity v)) \<and> m_buffer (m_data v) \<noteq> 0"
  by (simp add: owns_def block_with_def)

lemma owns_size: "owns st v xs \<Longrightarrow> m_size v = length xs \<and> length xs \<le> Capacity v"
  by (simp add: owns_def)

lemma owns_empty: "owns st v xs \<Longrightarrow> Capacity v = 0 \<Longrightarrow> xs = [] \<and> m_buffer (m_data v) = 0 \<and> m_size v = 0"
  by (simp add: owns_def)

lemma store_inv_fresh:
  "store_inv st \<Longrightarrow> heap st (next_block st) = None \<and> next_block st \<noteq> 0 \<and> heap st 0 = None"
  by (simp add: store_inv_def)

lemma store_inv_block_lt: "store_inv st \<Longrightarrow> heap st b = Some blk \<Longrightarrow> b < next_block st \<and> b \<noteq> 0"
  unfolding store_inv_def by (metis not_le_imp_less option.distinct(1))


lemma shape_live:
  "map is_live blk' = map is_live blk \<Longrightarrow> i < length blk \<Longrightarrow> is_live (blk' ! i) = is_live (blk ! i)"
  by (metis length_map nth_map)

lemma shape_overwrite_live:
  assumes "off + length vs \<le> length blk" "\<forall>j<length vs. is_live (blk ! (off + j))"
  shows "map is_live (overwrite blk off (map Live vs)) = map is_live blk"
proof (rule nth_equalityI)
  show "length (map is_live (overwrite blk off (map Live vs))) = length (map is_live blk)"
    using assms by simp
next
  fix i assume "i < length (map is_live (overwrite blk off (map Live vs)))"
  with assms have i: "i < length blk" by simp
  have "is_live (blk ! i)" if "off \<le> i" "i < off + length vs"
  proof -
    from that have "i - off < length vs" by simp
    with assms(2) have "is_live (blk ! (off + (i - off)))" by blast
    with that show ?thesis by simp
  qed
  then show "map is_live (overwrite blk off (map Live vs)) ! i = map is_live blk ! i"
    using assms i by (auto simp: nth_overwrite)
qed

lemma CopyOrMoveData_block:
  assumes "heap st s = Some sblk" "heap st d = Some dblk" "s \<noteq> d"
    and "p + length vs \<le> length sblk" "\<forall>j<length vs. sblk ! (p + j) = Live (vs ! j)"
    and "q + length vs \<le> length dblk" "\<forall>j<length vs. dblk ! (q + j) = Raw"
  shows "\<exists>sblk'. length sblk' = length sblk \<and> map is_live sblk' = map is_live sblk \<and>
           (\<not> (nothrow_move_constructible E \<or> \<not> copy_constructible E) \<longrightarrow> sblk' = sblk) \<and>
           (\<forall>i<length sblk. i < p \<or> p + length vs \<le> i \<longrightarrow> sblk' ! i = sblk ! i) \<and>
           CopyOrMoveData E (s, p) (length vs) (d, q) st =
             (if \<exists>v\<in>set vs. transfer_throws E v
              then Threw elem_exn (set_block s sblk' st)
              else Returned () (set_block d (overwrite dblk q (map Live vs)) (set_block s sblk' st)))"
proof (cases "nothrow_move_constructible E \<or> \<not> copy_constructible E")
  case True
  let ?ok = "takeWhile (\<lambda>v. \<not> move_ctor_throws E v) vs"
  let ?sblk = "overwrite sblk p (map (\<lambda>v. Live (moved_from E v)) ?ok)"
  have lok: "length ?ok \<le> length vs" by (rule length_takeWhile_le)
  have m: "uninit_move_from E (s, p) (d, q) 0 (length vs) st =
     (if length ?ok < length vs
      then Threw elem_exn (set_block d (overwrite dblk q (replicate 0 Raw)) (set_block s ?sblk st))
      else Returned () (set_block d (overwrite dblk (q + 0) (map Live vs)) (set_block s ?sblk st)))"
    using uninit_move_from_block[of st s sblk d dblk p 0 vs q E] assms by simp
  have d: "set_block d dblk (set_block s ?sblk st) = set_block s ?sblk st"
    using assms(2,3) by (intro set_block_same) simp
  have sh: "map is_live ?sblk = map is_live sblk"
    using shape_overwrite_live[of p "map (moved_from E) ?ok" sblk] assms(4,5) lok
    by (simp add: comp_def)
  have len: "length ?sblk = length sblk" using assms(4) lok by simp
  have c: "(length ?ok < length vs) = (\<exists>v\<in>set vs. transfer_throws E v)"
    using True by (simp add: takeWhile_length_less transfer_throws_def)
  have out: "\<forall>i<length sblk. i < p \<or> p + length vs \<le> i \<longrightarrow> ?sblk ! i = sblk ! i"
    using assms(4) lok by (auto simp: nth_overwrite)
  show ?thesis
    using True m d sh len out unfolding c
    by (intro exI[of _ ?sblk]) (simp add: CopyOrMoveData_def uninitialized_move_n_def)
next
  case False
  have m: "uninit_copy_from E (s, p) (d, q) 0 (length vs) st =
     (if \<exists>v\<in>set vs. copy_ctor_throws E v
      then Threw elem_exn (set_block d (overwrite dblk q (replicate 0 Raw)) st)
      else Returned () (set_block d (overwrite dblk (q + 0) (map Live vs)) st))"
    using uninit_copy_from_block[of st s sblk d dblk p 0 vs q E] assms by simp
  have c: "(\<exists>v\<in>set vs. copy_ctor_throws E v) = (\<exists>v\<in>set vs. transfer_throws E v)"
    using False by (simp add: transfer_throws_def)
  show ?thesis
    using False m assms(1,2) unfolding c
    by (intro exI[of _ sblk]) (simp add: CopyOrMoveData_def uninitialized_copy_n_def set_block_same)
qed

lemma CopyOrMoveData_zero [simp]: "CopyOrMoveData E src 0 dst st = Returned () st"
  by (simp add: CopyOrMoveData_def uninitialized_move_n_def uninitialized_copy_n_def)


lemma overwrite_raw_block: "length xs \<le> n \<Longrightarrow> overwrite (replicate n Raw) 0 (map Live xs) = block_with xs n"
  by (simp add: overwrite_def block_with_def)

lemma block_with_live: "length xs \<le> c \<Longrightarrow> j < length xs \<Longrightarrow> block_with xs c ! j = Live (xs ! j)"
  by (simp add: block_with_def nth_append)

lemma Reserve_closed:
  assumes inv: "store_inv st" and v: "vectors st this = Some v" and own: "owns st v xs"
    and n: "Capacity v < n" and ft: "bytes_fit E n"
  shows "\<exists>blk'. (Capacity v \<noteq> 0 \<longrightarrow> map is_live blk' = map is_live (block_with xs (Capacity v))) \<and>
           (\<not> (nothrow_move_constructible E \<or> \<not> copy_constructible E) \<longrightarrow>
              blk' = block_with xs (Capacity v)) \<and>
           Reserve E this n st =
             (if alloc_fails E n then Threw bad_alloc st
              else if \<exists>x\<in>set xs. transfer_throws E x
              then Threw elem_exn
                     (release (next_block st) (set_block (m_buffer (m_data v)) blk' (new_block n st)))
              else Returned () (reallocated this (m_buffer (m_data v)) xs n st))"
proof (cases "Capacity v = 0")
  case True
  with own have e: "xs = []" "m_buffer (m_data v) = 0" "m_size v = 0"
    using owns_empty by blast+
  have "put_vector this (v\<lparr>m_data := \<lparr>m_buffer = next_block st, m_capacity = n\<rparr>\<rparr>) (new_block n st)
        = reallocated this 0 [] n st"
    using e by (intro store_eqI) (simp_all add: reallocated_def block_with_def vector_at_def)
  then show ?thesis
    using v n e True
    by (intro exI[of _ "block_with xs (Capacity v)"])
       (simp add: Reserve_def RawMemory_closed[OF ft] GetAddress_def RawMemory_Swap_def destroy_n_def
          RawMemory_dtor_def Deallocate_def)
next
  case False
  let ?b = "m_buffer (m_data v)" and ?c = "Capacity v" and ?nb = "next_block st"
  let ?blk = "block_with xs ?c"
  from own False have hb: "heap st ?b = Some ?blk" and b0: "?b \<noteq> 0"
    using owns_block by blast+
  from own have sz: "m_size v = length xs" and le: "length xs \<le> ?c"
    using owns_size by blast+
  from inv hb have bn: "?b < ?nb" using store_inv_block_lt by blast
  from n have n0: "n \<noteq> 0" by simp
  let ?st1 = "new_block n st"
  have h1: "heap ?st1 ?b = Some ?blk" "heap ?st1 ?nb = Some (replicate n Raw)"
    using hb bn by simp_all
  obtain blk' where len': "length blk' = length ?blk" and sh: "map is_live blk' = map is_live ?blk"
    and cp: "\<not> (nothrow_move_constructible E \<or> \<not> copy_constructible E) \<longrightarrow> blk' = ?blk"
    and tr: "CopyOrMoveData E (?b, 0) (length xs) (?nb, 0) ?st1 =
       (if \<exists>x\<in>set xs. transfer_throws E x
        then Threw elem_exn (set_block ?b blk' ?st1)
        else Returned () (set_block ?nb (overwrite (replicate n Raw) 0 (map Live xs)) (set_block ?b blk' ?st1)))"
    using CopyOrMoveData_block[OF h1(1) h1(2), of 0 xs 0 E] bn le n
    by (auto simp: block_with_live Capacity_def)
  show ?thesis
  proof (intro exI[of _ blk'] conjI impI)
    show "map is_live blk' = map is_live ?blk" by fact
    show "blk' = ?blk" if "\<not> (nothrow_move_constructible E \<or> \<not> copy_constructible E)"
      using cp that by blast
    show "Reserve E this n st =
      (if alloc_fails E n then Threw bad_alloc st
       else if \<exists>x\<in>set xs. transfer_throws E x
       then Threw elem_exn (release ?nb (set_block ?b blk' ?st1))
       else Returned () (reallocated this ?b xs n st))"
    proof (cases "alloc_fails E n")
      case True
      then show ?thesis using v n n0 by (simp add: Reserve_def RawMemory_closed[OF ft])
    next
      case af: False
      show ?thesis
      proof (cases "\<exists>x\<in>set xs. transfer_throws E x")
        case True
        have "Deallocate ?nb (set_block ?b blk' ?st1) = Returned () (release ?nb (set_block ?b blk' ?st1))"
          using bn by (intro Deallocate_release) simp
        then show ?thesis
          using v n n0 af True tr sz
          by (simp add: Reserve_def RawMemory_closed[OF ft] GetAddress_def RawMemory_dtor_def)
      next
        case nt: False
        let ?st2 = "set_block ?nb (block_with xs n) (set_block ?b blk' ?st1)"
        let ?v' = "v\<lparr>m_data := \<lparr>m_buffer = ?nb, m_capacity = n\<rparr>\<rparr>"
        let ?st3 = "put_vector this ?v' ?st2"
        have tr': "CopyOrMoveData E (?b, 0) (m_size v) (?nb, 0) ?st1 = Returned () ?st2"
          using tr nt sz le n by (simp add: overwrite_raw_block Capacity_def)
        have live: "\<forall>j<length xs. is_live (blk' ! (0 + j))"
          using sh le by (simp add: shape_live block_with_live)
        have d: "DestroyN (?b, 0) (length xs) ?st3 =
                 Returned () (set_block ?b (overwrite blk' 0 (replicate (length xs) Raw)) ?st3)"
          using bn len' le live by (intro DestroyN_block) simp_all
        let ?st4 = "set_block ?b (overwrite blk' 0 (replicate (length xs) Raw)) ?st3"
        have r: "Deallocate ?b ?st4 = Returned () (release ?b ?st4)"
          by (intro Deallocate_release) simp
        have fin: "release ?b ?st4 = reallocated this ?b xs n st"
          using b0 bn sz by (intro store_eqI) (auto simp: reallocated_def vector_at_def)
        show ?thesis
          using v n n0 af nt tr' d r fin sz
          by (simp add: Reserve_def RawMemory_closed[OF ft] GetAddress_def RawMemory_dtor_def
                RawMemory_Swap_def destroy_n_def)
      qed
    qed
  qed
qed


lemma vectors_reallocated [simp]:
  "vectors (reallocated this b ys c st) = (vectors st)(this \<mapsto> vector_at (next_block st) ys c)"
  by (simp add: reallocated_def)

lemma next_block_reallocated [simp]: "next_block (reallocated this b ys c st) = Suc (next_block st)"
  by (simp add: reallocated_def)

lemma heap_reallocated:
  "heap (reallocated this b ys c st) =
     (if b = 0 then (heap st)(next_block st \<mapsto> block_with ys c)
      else ((heap st)(next_block st \<mapsto> block_with ys c))(b := None))"
  by (simp add: reallocated_def)

lemma Capacity_vector_at [simp]: "Capacity (vector_at b ys c) = c"
  and Size_vector_at [simp]: "Size (vector_at b ys c) = length ys"
  and m_size_vector_at [simp]: "m_size (vector_at b ys c) = length ys"
  and m_data_vector_at [simp]: "m_data (vector_at b ys c) = \<lparr>m_buffer = b, m_capacity = c\<rparr>"
  by (simp_all add: vector_at_def Capacity_def Size_def)

lemma owns_reallocated:
  "b \<noteq> next_block st \<Longrightarrow> next_block st \<noteq> 0 \<Longrightarrow> length ys \<le> c \<Longrightarrow> c \<noteq> 0 \<Longrightarrow>
   owns (reallocated this b ys c st) (vector_at (next_block st) ys c) ys"
  by (simp add: owns_def heap_reallocated block_with_def)

lemma owns_one_vector:
  "b \<noteq> 0 \<Longrightarrow> length xs \<le> c \<Longrightarrow> c \<noteq> 0 \<Longrightarrow> owns (one_vector this b xs c) (vector_at b xs c) xs"
  by (simp add: owns_def one_vector_def block_with_def)

lemma shape_block_with:
  "length xs \<le> c \<Longrightarrow> map is_live (block_with xs c) = replicate (length xs) True @ replicate (c - length xs) False"
  by (simp add: block_with_def comp_def map_replicate_const)

lemma owns_elements: "owns st v xs \<Longrightarrow> elements st v = map Live xs"
  by (cases "Capacity v = 0") (auto simp: owns_def elements_def split: option.splits)

lemma owns_vector_inv: "owns st v xs \<Longrightarrow> vector_inv st v"
  using shape_block_with[of xs "Capacity v"]
  by (auto simp: owns_def vector_inv_def block_with_def)

lemma store_inv_one_vector:
  "b \<noteq> 0 \<Longrightarrow> length xs \<le> c \<Longrightarrow> c \<noteq> 0 \<Longrightarrow> store_inv (one_vector this b xs c)"
  unfolding store_inv_def
proof (intro conjI allI impI)
  fix that w assume a: "b \<noteq> 0" "length xs \<le> c" "c \<noteq> 0" "vectors (one_vector this b xs c) that = Some w"
  then have "w = vector_at b xs c" by (simp add: one_vector_def split: if_splits)
  with a owns_one_vector[of b xs c this] show "vector_inv (one_vector this b xs c) w"
    by (simp add: owns_vector_inv)
qed (auto simp: one_vector_def split: if_splits)

lemma owns_buffer_fresh:
  assumes "store_inv st" "owns st v xs"
  shows "m_buffer (m_data v) \<noteq> next_block st"
proof (cases "Capacity v = 0")
  case True
  with assms(2) have "m_buffer (m_data v) = 0" using owns_empty by blast
  with assms(1) show ?thesis using store_inv_fresh[of st] by simp
next
  case False
  with assms(2) have "heap st (m_buffer (m_data v)) = Some (block_with xs (Capacity v))"
    using owns_block by blast
  with assms(1) have "m_buffer (m_data v) < next_block st" using store_inv_block_lt by blast
  then show ?thesis by simp
qed

subsection \<open>Resize\<close>

lemma vectors_in_place [simp]:
  "vectors (in_place this b ys c st) = (vectors st)(this \<mapsto> vector_at b ys c)"
  and next_block_in_place [simp]: "next_block (in_place this b ys c st) = next_block st"
  and heap_in_place [simp]: "heap (in_place this b ys c st) = (heap st)(b \<mapsto> block_with ys c)"
  by (simp_all add: in_place_def)

lemma owns_in_place:
  "b \<noteq> 0 \<Longrightarrow> length ys \<le> c \<Longrightarrow> c \<noteq> 0 \<Longrightarrow> owns (in_place this b ys c st) (vector_at b ys c) ys"
  by (simp add: owns_def block_with_def)

lemma block_with_raw: "length xs \<le> j \<Longrightarrow> j < c \<Longrightarrow> block_with xs c ! j = Raw"
  by (simp add: block_with_def nth_append)

lemma overwrite_block_with_append:
  assumes "length xs + length ys \<le> c"
  shows "overwrite (block_with xs c) (length xs) (map Live ys) = block_with (xs @ ys) c"
  using assms by (simp add: overwrite_def block_with_def)

lemma overwrite_block_with_take:
  assumes "n \<le> length xs" "length xs \<le> c"
  shows "overwrite (block_with xs c) n (replicate (length xs - n) Raw) = block_with (take n xs) c"
proof (rule nth_equalityI)
  show "length (overwrite (block_with xs c) n (replicate (length xs - n) Raw)) = length (block_with (take n xs) c)"
    using assms by simp
next
  fix i assume "i < length (overwrite (block_with xs c) n (replicate (length xs - n) Raw))"
  with assms have i: "i < c" by simp
  show "overwrite (block_with xs c) n (replicate (length xs - n) Raw) ! i = block_with (take n xs) c ! i"
    using assms i by (auto simp: nth_overwrite nth_block_with)
qed

lemma value_construct_block:
  assumes "heap st b = Some (block_with xs c)" "length xs + m \<le> c"
  shows "uninitialized_value_construct_n E (b, length xs) m st =
     (if \<exists>k<m. value_init_throws E k then Threw elem_exn st
      else Returned () (set_block b (block_with (xs @ replicate m (value_init E)) c) st))"
proof -
  have "uninit_value_construct_from E (b, length xs) 0 m st =
     (if \<exists>k. 0 \<le> k \<and> k < 0 + m \<and> value_init_throws E k
      then Threw elem_exn (set_block b (overwrite (block_with xs c) (length xs) (replicate 0 Raw)) st)
      else Returned () (set_block b (overwrite (block_with xs c) (length xs + 0)
                          (replicate m (Live (value_init E)))) st))"
    using assms by (intro uninit_value_construct_from_block) (auto simp: block_with_raw)
  moreover have "overwrite (block_with xs c) (length xs) (replicate m (Live (value_init E)))
                 = block_with (xs @ replicate m (value_init E)) c"
    using overwrite_block_with_append[of xs "replicate m (value_init E)" c] assms(2) by simp
  ultimately show ?thesis
    using assms(1) by (simp add: uninitialized_value_construct_n_def set_block_same)
qed

lemma set_block_in_place:
  "vectors st this = Some v \<Longrightarrow> m_data v = \<lparr>m_buffer = b, m_capacity = c\<rparr> \<Longrightarrow>
   put_vector this \<lparr>m_data = m_data v, m_size = length ys\<rparr> (set_block b (block_with ys c) st) = in_place this b ys c st"
  by (simp add: in_place_def vector_at_def)

lemma Resize_closed:
  assumes inv: "store_inv st" and v: "vectors st this = Some v" and own: "owns st v xs"
    and ft: "Capacity v < n \<longrightarrow> bytes_fit E n"
  shows "\<exists>blk'. (Capacity v \<noteq> 0 \<longrightarrow> map is_live blk' = map is_live (block_with xs (Capacity v))) \<and>
     Resize E this n st =
     (if n < length xs then Returned () (in_place this (m_buffer (m_data v)) (take n xs) (Capacity v) st)
      else if n = length xs then Returned () st
      else if n \<le> Capacity v then
        (if \<exists>k<n - length xs. value_init_throws E k then Threw elem_exn st
         else Returned () (in_place this (m_buffer (m_data v))
                             (xs @ replicate (n - length xs) (value_init E)) (Capacity v) st))
      else if alloc_fails E n then Threw bad_alloc st
      else if \<exists>x\<in>set xs. transfer_throws E x
      then Threw elem_exn (release (next_block st) (set_block (m_buffer (m_data v)) blk' (new_block n st)))
      else if \<exists>k<n - length xs. value_init_throws E k
      then Threw elem_exn (reallocated this (m_buffer (m_data v)) xs n st)
      else Returned () (reallocated this (m_buffer (m_data v))
                          (xs @ replicate (n - length xs) (value_init E)) n st))"
proof -
  let ?b = "m_buffer (m_data v)" and ?c = "Capacity v"
  from own have sz: "m_size v = length xs" and le: "length xs \<le> ?c"
    using owns_size by blast+
  have data: "m_data v = \<lparr>m_buffer = ?b, m_capacity = ?c\<rparr>" by (simp add: Capacity_def)
  consider (shrink) "n < length xs" | (same) "n = length xs" | (fits) "length xs < n" "n \<le> ?c"
    | (grow) "length xs < n" "?c < n" by linarith
  then show ?thesis
  proof cases
    case shrink
    with le have c0: "?c \<noteq> 0" by simp
    with own have hb: "heap st ?b = Some (block_with xs ?c)" using owns_block by blast
    have "DestroyN (?b, n) (length xs - n) st =
          Returned () (set_block ?b (overwrite (block_with xs ?c) n (replicate (length xs - n) Raw)) st)"
      using hb shrink le by (intro DestroyN_block) (auto simp: block_with_live)
    then have "DestroyN (?b, n) (length xs - n) st = Returned () (set_block ?b (block_with (take n xs) ?c) st)"
      using shrink le by (simp add: overwrite_block_with_take)
    then show ?thesis
      using v sz shrink set_block_in_place[OF v data, of "take n xs"]
      by (intro exI[of _ "block_with xs ?c"]) (simp add: Resize_def GetAddress_def min_def)
  next
    case same
    then show ?thesis
      using v sz by (intro exI[of _ "block_with xs ?c"]) (simp add: Resize_def)
  next
    case fits
    then have c0: "?c \<noteq> 0" by simp
    with own have hb: "heap st ?b = Some (block_with xs ?c)" using owns_block by blast
    have r: "Reserve E this n st = Returned () st"
      using v fits by (simp add: Reserve_def)
    have u: "uninitialized_value_construct_n E (?b, length xs) (n - length xs) st =
       (if \<exists>k<n - length xs. value_init_throws E k then Threw elem_exn st
        else Returned () (set_block ?b (block_with (xs @ replicate (n - length xs) (value_init E)) ?c) st))"
    proof (rule value_construct_block[OF hb])
      show "length xs + (n - length xs) \<le> ?c" using fits by linarith
    qed
    show ?thesis
      using v sz fits r u set_block_in_place[OF v data, of "xs @ replicate (n - length xs) (value_init E)"]
      by (intro exI[of _ "block_with xs ?c"]) (simp add: Resize_def GetAddress_def)
  next
    case grow
    with ft have ftn: "bytes_fit E n" by simp
    from Reserve_closed[OF inv v own grow(2) ftn]
    obtain blk' where sh: "?c \<noteq> 0 \<longrightarrow> map is_live blk' = map is_live (block_with xs ?c)"
      and r: "Reserve E this n st =
             (if alloc_fails E n then Threw bad_alloc st
              else if \<exists>x\<in>set xs. transfer_throws E x
              then Threw elem_exn (release (next_block st) (set_block ?b blk' (new_block n st)))
              else Returned () (reallocated this ?b xs n st))" by blast
    let ?st1 = "reallocated this ?b xs n st"
    have bn: "?b \<noteq> next_block st" using inv own by (rule owns_buffer_fresh)
    have h1: "heap ?st1 (next_block st) = Some (block_with xs n)"
      using bn by (simp add: heap_reallocated)
    have u: "uninitialized_value_construct_n E (next_block st, length xs) (n - length xs) ?st1 =
       (if \<exists>k<n - length xs. value_init_throws E k then Threw elem_exn ?st1
        else Returned () (set_block (next_block st)
                            (block_with (xs @ replicate (n - length xs) (value_init E)) n) ?st1))"
    proof (rule value_construct_block[OF h1])
      show "length xs + (n - length xs) \<le> n" using grow by linarith
    qed
    have fin: "put_vector this \<lparr>m_data = \<lparr>m_buffer = next_block st, m_capacity = n\<rparr>, m_size = n\<rparr>
                 (set_block (next_block st) (block_with (xs @ replicate (n - length xs) (value_init E)) n) ?st1)
               = reallocated this ?b (xs @ replicate (n - length xs) (value_init E)) n st"
      using grow bn by (intro store_eqI) (auto simp: heap_reallocated vector_at_def fun_upd_twist)
    show ?thesis
      using v sz grow r u sh fin
      by (intro exI[of _ blk']) (auto simp: Resize_def GetAddress_def)
  qed
qed

subsection \<open>Erase, PopBack and Emplace\<close>

lemma Vector_end_owns: "owns st v xs \<Longrightarrow> Vector_end v = (m_buffer (m_data v), length xs)"
  by (simp add: Vector_end_def GetAddress_def owns_def)

lemma nth_overwrite_last:
  "k + Suc (length ys) \<le> length blk \<Longrightarrow> overwrite blk k (ys @ [y]) ! (k + length ys) = y"
  by (simp add: overwrite_def nth_append)

lemma nth_overwrite_first:
  "k + Suc (length ys) \<le> length blk \<Longrightarrow> overwrite blk k (y # ys) ! k = y"
  by (simp add: overwrite_def nth_append)

lemma erase_block:
  assumes "k < length xs" "length xs \<le> c"
  shows "(overwrite (block_with xs c) k (map Live (drop (Suc k) xs) @ [Live r]))[length xs - 1 := Raw]
         = block_with (take k xs @ drop (Suc k) xs) c"
proof (rule nth_equalityI)
  show "length ((overwrite (block_with xs c) k (map Live (drop (Suc k) xs) @ [Live r]))[length xs - 1 := Raw])
        = length (block_with (take k xs @ drop (Suc k) xs) c)"
    using assms by simp
next
  fix i assume "i < length ((overwrite (block_with xs c) k (map Live (drop (Suc k) xs) @ [Live r]))[length xs - 1 := Raw])"
  with assms have i: "i < c" by simp
  show "(overwrite (block_with xs c) k (map Live (drop (Suc k) xs) @ [Live r]))[length xs - 1 := Raw] ! i
        = block_with (take k xs @ drop (Suc k) xs) c ! i"
    using assms i
    by (auto simp: nth_list_update nth_overwrite nth_block_with nth_append min_def)
qed

lemma Erase_closed:
  assumes v: "vectors st this = Some v" and own: "owns st v xs" and k: "k < length xs"
    and nt: "\<forall>x\<in>set (drop (Suc k) xs). \<not> move_assign_throws E x"
  shows "Erase E this (m_buffer (m_data v), k) st =
           Returned (m_buffer (m_data v), k)
             (in_place this (m_buffer (m_data v)) (take k xs @ drop (Suc k) xs) (Capacity v) st)"
proof -
  let ?b = "m_buffer (m_data v)" and ?c = "Capacity v" and ?vs = "drop (Suc k) xs"
  from own have sz: "m_size v = length xs" and le: "length xs \<le> ?c"
    using owns_size by blast+
  from k le have c0: "?c \<noteq> 0" by simp
  with own have hb: "heap st ?b = Some (block_with xs ?c)" using owns_block by blast
  have data: "m_data v = \<lparr>m_buffer = ?b, m_capacity = ?c\<rparr>" by (simp add: Capacity_def)
  have lv: "length ?vs = length xs - Suc k" by simp
  have "\<exists>r. move_loop E (?b, Suc k) (?b, k) (length ?vs) st =
         Returned () (set_block ?b (overwrite (block_with xs ?c) k (map Live ?vs @ [Live r])) st)"
    using hb k le nt by (intro move_loop_block) (auto simp: block_with_live)
  then obtain r where m: "move_loop E (?b, Suc k) (?b, k) (length xs - Suc k) st =
         Returned () (set_block ?b (overwrite (block_with xs ?c) k (map Live ?vs @ [Live r])) st)"
    unfolding lv by blast
  let ?blk1 = "overwrite (block_with xs ?c) k (map Live ?vs @ [Live r])"
  have l1: "length ?blk1 = ?c" using k le by simp
  have idx: "length xs - 1 = k + length ?vs" and lt: "length xs - 1 < ?c"
    using k le by simp_all
  have "?blk1 ! (k + length (map Live ?vs)) = Live r"
    using k le by (intro nth_overwrite_last) simp
  then have live: "is_live (?blk1 ! (length xs - 1))" using idx by simp
  have d: "Destroy (?b, length xs - 1) (set_block ?b ?blk1 st) =
             Returned () (set_block ?b (?blk1[length xs - 1 := Raw]) (set_block ?b ?blk1 st))"
    using lt l1 live by (intro Destroy_block) simp_all
  have e: "?blk1[length xs - 1 := Raw] = block_with (take k xs @ ?vs) ?c"
    using k le by (rule erase_block)
  have len: "length (take k xs @ ?vs) = length xs - 1" using k by simp
  show ?thesis
    using v sz k m d e set_block_in_place[OF v data, where ys = "take k xs @ ?vs"] len
    by (simp add: Erase_def std_move_def Vector_end_owns[OF own])
qed

lemma PopBack_closed:
  assumes v: "vectors st this = Some v" and own: "owns st v xs" and ne: "xs \<noteq> []"
  shows "PopBack this st =
           Returned () (in_place this (m_buffer (m_data v)) (butlast xs) (Capacity v) st)"
proof -
  let ?b = "m_buffer (m_data v)" and ?c = "Capacity v"
  from own have sz: "m_size v = length xs" and le: "length xs \<le> ?c"
    using owns_size by blast+
  from ne le have c0: "?c \<noteq> 0" by (cases xs) auto
  with own have hb: "heap st ?b = Some (block_with xs ?c)" using owns_block by blast
  have data: "m_data v = \<lparr>m_buffer = ?b, m_capacity = ?c\<rparr>" by (simp add: Capacity_def)
  have n: "0 < length xs" using ne by simp
  have lt: "length xs - 1 < ?c" "length xs - 1 < length xs" using n le by linarith+
  have d: "Destroy (?b, length xs - 1) st = Returned () (set_block ?b ((block_with xs ?c)[length xs - 1 := Raw]) st)"
    using hb lt le by (intro Destroy_block) (simp_all add: block_with_live del: One_nat_def)
  have e: "(block_with xs ?c)[length xs - 1 := Raw] = block_with (butlast xs) ?c"
  proof (rule nth_equalityI)
    show "length ((block_with xs ?c)[length xs - 1 := Raw]) = length (block_with (butlast xs) ?c)"
      using le by simp
  next
    fix i assume "i < length ((block_with xs ?c)[length xs - 1 := Raw])"
    with le have i: "i < ?c" by simp
    show "(block_with xs ?c)[length xs - 1 := Raw] ! i = block_with (butlast xs) ?c ! i"
      using le n i by (auto simp: nth_list_update nth_block_with nth_butlast)
  qed
  show ?thesis
    using v sz ne d e set_block_in_place[OF v data, where ys = "butlast xs"]
    by (simp add: PopBack_def Vector_end_owns[OF own])
qed


lemma move_construct_block:
  "heap st b = Some blk \<Longrightarrow> i < length blk \<Longrightarrow> blk ! i = Live x \<Longrightarrow>
   k < length blk \<Longrightarrow> blk ! k = Raw \<Longrightarrow> \<not> move_ctor_throws E x \<Longrightarrow>
   move_construct E (b, i) (b, k) st =
     Returned () (set_block b (blk[k := Live x, i := Live (moved_from E x)]) st)"
  by (simp add: move_construct_def slot_at_block construct_at_block put_slot_block)

lemma emplace_end_block:
  assumes "length xs < c"
  shows "(block_with xs c)[length xs := Live x] = block_with (xs @ [x]) c"
proof (rule nth_equalityI)
  show "length ((block_with xs c)[length xs := Live x]) = length (block_with (xs @ [x]) c)"
    using assms by simp
next
  fix i assume "i < length ((block_with xs c)[length xs := Live x])"
  with assms have i: "i < c" by simp
  show "(block_with xs c)[length xs := Live x] ! i = block_with (xs @ [x]) c ! i"
    using assms i by (auto simp: nth_list_update nth_block_with nth_append)
qed

lemma emplace_shift_block:
  assumes "k < length xs" "length xs < c"
  shows "(overwrite ((block_with xs c)[length xs := Live (xs ! (length xs - 1)), length xs - 1 := y])
            k (Live r # map Live (butlast (drop k xs))))[k := Live x]
         = block_with (take k xs @ x # drop k xs) c"
proof (rule nth_equalityI)
  show "length ((overwrite ((block_with xs c)[length xs := Live (xs ! (length xs - 1)), length xs - 1 := y])
            k (Live r # map Live (butlast (drop k xs))))[k := Live x])
        = length (block_with (take k xs @ x # drop k xs) c)"
    using assms by simp
next
  fix i assume "i < length ((overwrite ((block_with xs c)[length xs := Live (xs ! (length xs - 1)), length xs - 1 := y])
            k (Live r # map Live (butlast (drop k xs))))[k := Live x])"
  with assms have i: "i < c" by simp
  have len: "k + length (Live r # map Live (butlast (drop k xs))) \<le> length ((block_with xs c)[length xs := Live (xs ! (length xs - 1)), length xs - 1 := y])"
    using assms by simp
  have sn: "Suc (length xs - Suc 0) = length xs" using assms by simp
  consider (lo) "i < k" | (at) "i = k" | (mid) "k < i" "i < length xs" | (top) "i = length xs" | (hi) "length xs < i"
    by linarith
  then show "(overwrite ((block_with xs c)[length xs := Live (xs ! (length xs - 1)), length xs - 1 := y])
            k (Live r # map Live (butlast (drop k xs))))[k := Live x] ! i
        = block_with (take k xs @ x # drop k xs) c ! i"
  proof cases
    case lo
    then show ?thesis using assms i len
      by (simp add: nth_overwrite nth_list_update nth_block_with nth_append)
  next
    case at
    then show ?thesis using assms i len
      by (simp add: nth_overwrite nth_list_update nth_block_with nth_append)
  next
    case mid
    then have "i - Suc k < length xs - Suc k" "Suc (k + (i - Suc k)) = i" "k + (i - Suc k) = i - 1" by simp_all
    then show ?thesis using assms i len mid
      by (simp add: nth_overwrite nth_list_update nth_block_with nth_append nth_Cons' nth_butlast sn)
  next
    case top
    then show ?thesis using assms i len
      by (simp add: nth_overwrite nth_list_update nth_block_with nth_append nth_Cons' sn)
  next
    case hi
    then show ?thesis using assms i len
      by (simp add: nth_overwrite nth_list_update nth_block_with nth_append)
  qed
qed

lemma Emplace_in_place_closed:
  assumes v: "vectors st this = Some v" and own: "owns st v xs" and k: "k \<le> length xs"
    and room: "length xs < Capacity v"
    and nt: "k < length xs \<longrightarrow> \<not> move_ctor_throws E (last xs) \<and>
             (\<forall>y\<in>set (butlast (drop k xs)). \<not> move_assign_throws E y) \<and>
             (\<forall>x. args = Some x \<longrightarrow> \<not> move_assign_throws E x)"
  shows "Emplace_in_place E this v (m_buffer (m_data v), k) args st =
           (case args of
              None \<Rightarrow> Threw elem_exn st
            | Some x \<Rightarrow>
                Returned (m_buffer (m_data v), k)
                  (in_place this (m_buffer (m_data v)) (take k xs @ x # drop k xs) (Capacity v) st))"
proof (cases args)
  case None
  then show ?thesis
    by (simp add: Emplace_in_place_def construct_args_def)
next
  case (Some x)
  let ?b = "m_buffer (m_data v)" and ?c = "Capacity v" and ?n = "length xs"
  let ?blk = "block_with xs ?c"
  from own have sz: "m_size v = ?n" using owns_size by blast
  from room have c0: "?c \<noteq> 0" by simp
  with own have hb: "heap st ?b = Some ?blk" using owns_block by blast
  have data: "m_data v = \<lparr>m_buffer = ?b, m_capacity = ?c\<rparr>" by (simp add: Capacity_def)
  have fin: "\<And>ys. length ys = Suc ?n \<Longrightarrow>
     put_vector this \<lparr>m_data = m_data v, m_size = Suc ?n\<rparr> (set_block ?b (block_with ys ?c) st)
       = in_place this ?b ys ?c st"
    using set_block_in_place[OF v data] by metis
  show ?thesis
  proof (cases "k = ?n")
    case True
    have "construct_at (?b, ?n) x st = Returned () (set_block ?b (?blk[?n := Live x]) st)"
      using hb room by (intro construct_at_block) (simp_all add: block_with_raw)
    then show ?thesis
      using Some True sz room fin[of "xs @ [x]"]
      by (simp add: Emplace_in_place_def construct_args_def Vector_end_owns[OF own] emplace_end_block)
  next
    case False
    with k have kl: "k < ?n" by simp
    let ?l = "xs ! (?n - 1)"
    let ?vs = "butlast (drop k xs)"
    let ?blk1 = "?blk[?n := Live ?l, ?n - 1 := Live (moved_from E ?l)]"
    let ?st1 = "set_block ?b ?blk1 st"
    have "xs \<noteq> []" using kl by auto
    then have last: "last xs = ?l" by (simp add: last_conv_nth)
    have mc: "move_construct E (?b, ?n - 1) (?b, ?n) st = Returned () ?st1"
      using hb kl room nt last
      by (intro move_construct_block) (simp_all add: block_with_live block_with_raw)
    have um: "uninitialized_move_n E (?b, ?n - 1) 1 (?b, ?n) st = Returned () ?st1"
      using mc by (simp add: uninitialized_move_n_def)
    have lvs: "length ?vs = ?n - 1 - k" by simp
    have idx: "k + length ?vs = ?n - 1" "Suc (?n - 1) = ?n" using kl by simp_all
    have "\<exists>r. move_backward_loop E (?b, k + length ?vs) (?b, Suc (k + length ?vs)) (length ?vs) ?st1 =
            Returned () (set_block ?b (overwrite ?blk1 k (Live r # map Live ?vs)) ?st1)"
    proof (rule move_backward_loop_block)
      show "heap ?st1 ?b = Some ?blk1" by simp
      show "k + length ?vs < length ?blk1" using kl room by simp
      show "is_live (?blk1 ! (k + length ?vs))" using kl room by (simp add: idx)
      show "\<forall>j<length ?vs. ?blk1 ! (k + j) = Live (?vs ! j)"
        using kl room by (auto simp: nth_list_update nth_butlast block_with_live)
      show "\<forall>v\<in>set ?vs. \<not> move_assign_throws E v" using nt kl by simp
    qed
    then obtain r where "move_backward_loop E (?b, k + length ?vs) (?b, Suc (k + length ?vs)) (length ?vs) ?st1 =
            Returned () (set_block ?b (overwrite ?blk1 k (Live r # map Live ?vs)) ?st1)" ..
    then have mb: "move_backward_loop E (?b, ?n - 1) (?b, ?n) (?n - 1 - k) ?st1 =
            Returned () (set_block ?b (overwrite ?blk1 k (Live r # map Live ?vs)) st)"
      unfolding idx by (simp only: lvs set_block_set_block)
    let ?blk2 = "overwrite ?blk1 k (Live r # map Live ?vs)"
    have l2: "length ?blk2 = ?c" using kl room by simp
    have "?blk2 ! k = Live r"
      using kl room by (intro nth_overwrite_first) simp
    then have av: "assign_value (move_assign_throws E x) (?b, k) x (set_block ?b ?blk2 st)
             = Returned () (set_block ?b (?blk2[k := Live x]) st)"
      using nt kl Some l2 room
      by (simp add: assign_value_def slot_at_block put_slot_block)
    have e: "?blk2[k := Live x] = block_with (take k xs @ x # drop k xs) ?c"
      using kl room by (rule emplace_shift_block)
    show ?thesis
      using Some False kl sz um mb av e fin[of "take k xs @ x # drop k xs"]
      by (simp add: Emplace_in_place_def Vector_end_owns[OF own] std_move_backward_def)
  qed
qed


lemma emplace_realloc_block:
  assumes "k \<le> length xs" "length xs < sz"
  shows "overwrite (overwrite ((replicate sz Raw)[k := Live x]) 0 (map Live (take k xs)))
           (Suc k) (map Live (drop k xs))
         = block_with (take k xs @ x # drop k xs) sz"
proof (rule nth_equalityI)
  show "length (overwrite (overwrite ((replicate sz Raw)[k := Live x]) 0 (map Live (take k xs)))
           (Suc k) (map Live (drop k xs)))
        = length (block_with (take k xs @ x # drop k xs) sz)"
    using assms by simp
next
  fix i assume "i < length (overwrite (overwrite ((replicate sz Raw)[k := Live x]) 0 (map Live (take k xs)))
           (Suc k) (map Live (drop k xs)))"
  with assms have i: "i < sz" by simp
  have l1: "0 + length (map Live (take k xs)) \<le> length ((replicate sz Raw)[k := Live x])"
    using assms by simp
  have l2: "Suc k + length (map Live (drop k xs)) \<le>
            length (overwrite ((replicate sz Raw)[k := Live x]) 0 (map Live (take k xs)))"
    using assms by simp
  consider (lo) "i < k" | (at) "i = k" | (mid) "k < i" "i \<le> length xs" | (hi) "length xs < i"
    by linarith
  then show "overwrite (overwrite ((replicate sz Raw)[k := Live x]) 0 (map Live (take k xs)))
           (Suc k) (map Live (drop k xs)) ! i
        = block_with (take k xs @ x # drop k xs) sz ! i"
  proof cases
    case lo
    then show ?thesis using assms i
      by (simp add: nth_overwrite[OF l2] nth_overwrite[OF l1] nth_block_with nth_append)
  next
    case at
    then show ?thesis using assms i
      by (simp add: nth_overwrite[OF l2] nth_overwrite[OF l1] nth_block_with nth_append)
  next
    case mid
    then have "i - Suc k < length xs - k" "k + (i - Suc k) = i - 1" by simp_all
    then show ?thesis using assms i mid
      by (simp add: nth_overwrite[OF l2] nth_block_with nth_append nth_Cons')
  next
    case hi
    then show ?thesis using assms i
      by (simp add: nth_overwrite[OF l2] nth_overwrite[OF l1] nth_block_with nth_append)
  qed
qed

lemma Emplace_realloc_closed:
  assumes inv: "store_inv st" and v: "vectors st this = Some v" and own: "owns st v xs"
    and k: "k \<le> length xs" and full: "length xs = Capacity v"
    and nt: "\<forall>x\<in>set xs. \<not> transfer_throws E x"
    and ft: "bytes_fit E (if Capacity v = 0 then 1 else Capacity v * 2)"
  shows "Emplace_realloc E this v (m_buffer (m_data v), k) args st =
     (if alloc_fails E (if Capacity v = 0 then 1 else Capacity v * 2) then Threw bad_alloc st
      else case args of
             None \<Rightarrow>
               Threw elem_exn
                 (release (next_block st)
                    (new_block (if Capacity v = 0 then 1 else Capacity v * 2) st))
           | Some x \<Rightarrow>
               Returned (next_block st, k)
                 (reallocated this (m_buffer (m_data v)) (take k xs @ x # drop k xs)
                    (if Capacity v = 0 then 1 else Capacity v * 2) st))"
proof -
  let ?b = "m_buffer (m_data v)" and ?c = "Capacity v" and ?n = "length xs" and ?nb = "next_block st"
  let ?sz = "if ?c = 0 then 1 else ?c * 2"
  let ?st1 = "new_block ?sz st"
  have sz0: "?sz \<noteq> 0" by simp
  from own have sz: "m_size v = ?n" using owns_size by blast
  have bn: "?b \<noteq> ?nb" using inv own by (rule owns_buffer_fresh)
  have nsz: "?n < ?sz" using full by simp
  have rm: "RawMemory E ?sz st =
     (if alloc_fails E ?sz then Threw bad_alloc st
      else Returned \<lparr>m_buffer = ?nb, m_capacity = ?sz\<rparr> ?st1)"
    using sz0 by (simp only: RawMemory_closed[OF ft] if_False)
  show ?thesis
  proof (cases "alloc_fails E ?sz")
    case True
    then show ?thesis using rm by (simp add: Emplace_realloc_def Let_def)
  next
    case af: False
    show ?thesis
    proof (cases args)
      case None
      have "Deallocate ?nb ?st1 = Returned () (release ?nb ?st1)"
        by (intro Deallocate_release) simp
      then show ?thesis
        using af None rm
        by (simp add: Emplace_realloc_def Let_def construct_args_def RawMemory_dtor_def GetAddress_def)
    next
      case (Some x)
      let ?dblk = "(replicate ?sz Raw)[k := Live x]"
      let ?st2 = "set_block ?nb ?dblk ?st1"
      let ?ys = "take k xs @ x # drop k xs"
      have ksz: "k < ?sz" using k nsz by linarith
      have ca: "construct_at (?nb, k) x ?st1 = Returned () ?st2"
        using ksz by (intro construct_at_block) simp_all
      show ?thesis
      proof (cases "?c = 0")
        case True
        with own full have e: "xs = []" "?b = 0" "m_size v = 0" "k = 0"
          using owns_empty k by (blast, blast, blast, simp)
        have fin: "put_vector this \<lparr>m_data = \<lparr>m_buffer = ?nb, m_capacity = 1\<rparr>, m_size = Suc 0\<rparr>
                     (put_vector this \<lparr>m_data = \<lparr>m_buffer = ?nb, m_capacity = 1\<rparr>, m_size = 0\<rparr>
                        (set_block ?nb [Live x] (new_block 1 st)))
                   = reallocated this 0 [x] 1 st"
          by (intro store_eqI) (simp_all add: heap_reallocated block_with_def vector_at_def)
        show ?thesis
          using af Some rm ca True e fin
          by (simp add: Emplace_realloc_def Let_def construct_args_def RawMemory_dtor_def
                GetAddress_def Vector_begin_def Vector_end_def RawMemory_Swap_def Deallocate_def)
      next
        case c0: False
        let ?sblk = "block_with xs ?c"
        from own c0 have hb: "heap st ?b = Some ?sblk" and b0: "?b \<noteq> 0"
          using owns_block by blast+
        have n0: "?n \<noteq> 0" using c0 full by simp
        have h2: "heap ?st2 ?b = Some ?sblk" "heap ?st2 ?nb = Some ?dblk"
          using hb bn by simp_all
        have lt: "length (take k xs) = k" using k by simp
        obtain sblk1 where len1: "length sblk1 = length ?sblk"
          and sh1: "map is_live sblk1 = map is_live ?sblk"
          and out1: "\<forall>i<length ?sblk. i < 0 \<or> 0 + length (take k xs) \<le> i \<longrightarrow> sblk1 ! i = ?sblk ! i"
          and tr1: "CopyOrMoveData E (?b, 0) (length (take k xs)) (?nb, 0) ?st2 =
             (if \<exists>v\<in>set (take k xs). transfer_throws E v
              then Threw elem_exn (set_block ?b sblk1 ?st2)
              else Returned () (set_block ?nb (overwrite ?dblk 0 (map Live (take k xs)))
                                  (set_block ?b sblk1 ?st2)))"
          using CopyOrMoveData_block[OF h2(1) h2(2) bn, of 0 "take k xs" 0 E] k full ksz
          by (auto simp: block_with_live)
        have nt1: "\<not> (\<exists>v\<in>set (take k xs). transfer_throws E v)"
          using nt by (meson in_set_takeD)
        let ?dblk2 = "overwrite ?dblk 0 (map Live (take k xs))"
        let ?st3 = "set_block ?nb ?dblk2 (set_block ?b sblk1 ?st2)"
        have tr1': "CopyOrMoveData E (?b, 0) k (?nb, 0) ?st2 = Returned () ?st3"
          using tr1 nt1 lt by simp
        have h3: "heap ?st3 ?b = Some sblk1" "heap ?st3 ?nb = Some ?dblk2"
          using bn by simp_all
        have ld: "length (drop k xs) = ?n - k" by simp
        have src2: "\<forall>j<length (drop k xs). sblk1 ! (k + j) = Live (drop k xs ! j)"
          using out1 k full lt by (simp add: block_with_live)
        have l2: "0 + length (map Live (take k xs)) \<le> length ?dblk" using k nsz by simp
        have raw2: "\<forall>j<length (drop k xs). ?dblk2 ! (Suc k + j) = Raw"
          using k nsz by (simp add: nth_overwrite[OF l2])
        obtain sblk2 where len2: "length sblk2 = length sblk1"
          and sh2: "map is_live sblk2 = map is_live sblk1"
          and tr2: "CopyOrMoveData E (?b, k) (length (drop k xs)) (?nb, Suc k) ?st3 =
             (if \<exists>v\<in>set (drop k xs). transfer_throws E v
              then Threw elem_exn (set_block ?b sblk2 ?st3)
              else Returned () (set_block ?nb (overwrite ?dblk2 (Suc k) (map Live (drop k xs)))
                                  (set_block ?b sblk2 ?st3)))"
          using CopyOrMoveData_block[OF h3(1) h3(2) bn, of k "drop k xs" "Suc k" E] k full nsz len1 src2 raw2
          by auto
        have nt2: "\<not> (\<exists>v\<in>set (drop k xs). transfer_throws E v)"
          using nt by (meson in_set_dropD)
        have e: "overwrite ?dblk2 (Suc k) (map Live (drop k xs)) = block_with ?ys ?sz"
          using k nsz by (rule emplace_realloc_block)
        let ?st4 = "set_block ?nb (block_with ?ys ?sz) (set_block ?b sblk2 ?st3)"
        have tr2': "CopyOrMoveData E (?b, k) (?n - k) (?nb, Suc k) ?st3 = Returned () ?st4"
          using tr2 nt2 ld e by simp
        let ?st5 = "put_vector this \<lparr>m_data = \<lparr>m_buffer = ?nb, m_capacity = ?sz\<rparr>, m_size = ?n\<rparr> ?st4"
        have live: "\<forall>j<?n. is_live (sblk2 ! (0 + j))"
          using sh1 sh2 full by (simp add: shape_live block_with_live len1)
        have d: "DestroyN (?b, 0) ?n ?st5 =
                 Returned () (set_block ?b (overwrite sblk2 0 (replicate ?n Raw)) ?st5)"
          using bn len1 len2 full live by (intro DestroyN_block) simp_all
        let ?st6 = "set_block ?b (overwrite sblk2 0 (replicate ?n Raw)) ?st5"
        let ?st7 = "put_vector this \<lparr>m_data = \<lparr>m_buffer = ?nb, m_capacity = ?sz\<rparr>, m_size = Suc ?n\<rparr> ?st6"
        have r: "Deallocate ?b ?st7 = Returned () (release ?b ?st7)"
          by (intro Deallocate_release) simp
        have fin: "release ?b ?st7 = reallocated this ?b ?ys ?sz st"
          using b0 bn k by (intro store_eqI) (auto simp: heap_reallocated vector_at_def)
        have be: "Vector_begin v \<noteq> Vector_end v"
          using n0 sz by (simp add: Vector_begin_def Vector_end_def GetAddress_def)
        show ?thesis
          using af Some rm ca c0 be tr1' tr2' d r fin sz
          by (simp add: Emplace_realloc_def Let_def construct_args_def RawMemory_dtor_def
                GetAddress_def Vector_end_def RawMemory_Swap_def)
      qed
    qed
  qed
qed

lemma never_throws_transfer: "never_throws E x \<Longrightarrow> \<not> transfer_throws E x"
  by (simp add: never_throws_def transfer_throws_def)

lemma never_throws_int_env [simp]: "never_throws int_env x"
  by (simp add: never_throws_def int_env_def)

lemma Emplace_closed:
  assumes inv: "store_inv st" and v: "vectors st this = Some v" and own: "owns st v xs"
    and k: "k \<le> length xs" and nt: "\<forall>y\<in>set xs. never_throws E y"
    and ntx: "\<forall>x. args = Some x \<longrightarrow> never_throws E x"
    and ft: "length xs = Capacity v \<longrightarrow> bytes_fit E (if Capacity v = 0 then 1 else Capacity v * 2)"
  shows "Emplace E this (m_buffer (m_data v), k) args st =
     (if length xs < Capacity v then
        (case args of
           None \<Rightarrow> Threw elem_exn st
         | Some x \<Rightarrow>
             Returned (m_buffer (m_data v), k)
               (in_place this (m_buffer (m_data v)) (take k xs @ x # drop k xs) (Capacity v) st))
      else if alloc_fails E (if Capacity v = 0 then 1 else Capacity v * 2) then Threw bad_alloc st
      else case args of
             None \<Rightarrow>
               Threw elem_exn
                 (release (next_block st)
                    (new_block (if Capacity v = 0 then 1 else Capacity v * 2) st))
           | Some x \<Rightarrow>
               Returned (next_block st, k)
                 (reallocated this (m_buffer (m_data v)) (take k xs @ x # drop k xs)
                    (if Capacity v = 0 then 1 else Capacity v * 2) st))"
proof -
  from own have sz: "m_size v = length xs" and le: "length xs \<le> Capacity v"
    using owns_size by blast+
  show ?thesis
  proof (cases "length xs < Capacity v")
    case True
    have "k < length xs \<longrightarrow> \<not> move_ctor_throws E (last xs) \<and>
             (\<forall>y\<in>set (butlast (drop k xs)). \<not> move_assign_throws E y) \<and>
             (\<forall>x. args = Some x \<longrightarrow> \<not> move_assign_throws E x)"
    proof (intro impI conjI ballI allI)
      assume "k < length xs"
      then have "xs \<noteq> []" by auto
      then show "\<not> move_ctor_throws E (last xs)" using nt by (simp add: never_throws_def)
    next
      fix y assume "y \<in> set (butlast (drop k xs))"
      then have "y \<in> set xs" by (meson in_set_butlastD in_set_dropD)
      then show "\<not> move_assign_throws E y" using nt by (simp add: never_throws_def)
    next
      fix x assume "args = Some x"
      then show "\<not> move_assign_throws E x" using ntx by (simp add: never_throws_def)
    qed
    then have c: "Emplace_in_place E this v (m_buffer (m_data v), k) args st =
           (case args of
              None \<Rightarrow> Threw elem_exn st
            | Some x \<Rightarrow>
                Returned (m_buffer (m_data v), k)
                  (in_place this (m_buffer (m_data v)) (take k xs @ x # drop k xs) (Capacity v) st))"
      by (rule Emplace_in_place_closed[OF v own k True])
    have "Emplace E this (m_buffer (m_data v), k) args st =
          Emplace_in_place E this v (m_buffer (m_data v), k) args st"
      using v sz k True by (simp add: Emplace_def)
    then show ?thesis using True by (simp only: c if_True)
  next
    case False
    with le have full: "length xs = Capacity v" by simp
    from ft full have ftz: "bytes_fit E (if Capacity v = 0 then 1 else Capacity v * 2)" by simp
    have "\<forall>x\<in>set xs. \<not> transfer_throws E x" using nt by (simp add: never_throws_transfer)
    then have c: "Emplace_realloc E this v (m_buffer (m_data v), k) args st =
     (if alloc_fails E (if Capacity v = 0 then 1 else Capacity v * 2) then Threw bad_alloc st
      else case args of
             None \<Rightarrow>
               Threw elem_exn
                 (release (next_block st)
                    (new_block (if Capacity v = 0 then 1 else Capacity v * 2) st))
           | Some x \<Rightarrow>
               Returned (next_block st, k)
                 (reallocated this (m_buffer (m_data v)) (take k xs @ x # drop k xs)
                    (if Capacity v = 0 then 1 else Capacity v * 2) st))"
      using ftz by (intro Emplace_realloc_closed[OF inv v own k full])
    have "Emplace E this (m_buffer (m_data v), k) args st =
          Emplace_realloc E this v (m_buffer (m_data v), k) args st"
      using v sz k False by (simp add: Emplace_def)
    then show ?thesis using False by (simp only: c if_False)
  qed
qed

subsection \<open>Preservation of the store invariant\<close>

lemma vector_inv_shape:
  "map_option (map is_live) (heap st' (m_buffer (m_data w))) =
   map_option (map is_live) (heap st (m_buffer (m_data w))) \<Longrightarrow>
   vector_inv st' w = vector_inv st w"
  by (cases "heap st (m_buffer (m_data w))"; cases "heap st' (m_buffer (m_data w))")
     (auto simp: vector_inv_def)

lemma vector_inv_block:
  "vector_inv st w \<Longrightarrow> Capacity w \<noteq> 0 \<Longrightarrow>
   m_buffer (m_data w) \<noteq> 0 \<and> heap st (m_buffer (m_data w)) \<noteq> None"
  by (auto simp: vector_inv_def split: option.splits)

lemma vector_inv_null: "vector_inv st w \<Longrightarrow> Capacity w = 0 \<Longrightarrow> m_buffer (m_data w) = 0"
  by (simp add: vector_inv_def)

lemma vector_inv_buffer:
  "vector_inv st w \<Longrightarrow> m_buffer (m_data w) \<noteq> 0 \<Longrightarrow>
   heap st (m_buffer (m_data w)) \<noteq> None \<and> Capacity w \<noteq> 0"
  by (auto simp: vector_inv_def split: option.splits if_splits)

lemma store_invD:
  assumes "store_inv st"
  shows "heap st 0 = None" and "next_block st \<noteq> 0"
    and "\<And>a. next_block st \<le> a \<Longrightarrow> heap st a = None"
    and "\<And>this v. vectors st this = Some v \<Longrightarrow> vector_inv st v"
    and "\<And>this other v w. vectors st this = Some v \<Longrightarrow> vectors st other = Some w \<Longrightarrow>
           this \<noteq> other \<Longrightarrow> m_buffer (m_data v) \<noteq> 0 \<Longrightarrow>
           m_buffer (m_data v) \<noteq> m_buffer (m_data w)"
proof -
  from assms have c: "heap st 0 = None \<and> next_block st \<noteq> 0 \<and>
     (\<forall>a. next_block st \<le> a \<longrightarrow> heap st a = None) \<and>
     (\<forall>this v. vectors st this = Some v \<longrightarrow> vector_inv st v) \<and>
     (\<forall>this other v w.
        vectors st this = Some v \<and> vectors st other = Some w \<and> this \<noteq> other \<and>
        m_buffer (m_data v) \<noteq> 0 \<longrightarrow> m_buffer (m_data v) \<noteq> m_buffer (m_data w))"
    unfolding store_inv_def .
  show "heap st 0 = None" and "next_block st \<noteq> 0" using c by blast+
  show "\<And>a. next_block st \<le> a \<Longrightarrow> heap st a = None" using c by blast
  show "\<And>this v. vectors st this = Some v \<Longrightarrow> vector_inv st v" using c by blast
  from c have d: "\<forall>this other v w.
        vectors st this = Some v \<and> vectors st other = Some w \<and> this \<noteq> other \<and>
        m_buffer (m_data v) \<noteq> 0 \<longrightarrow> m_buffer (m_data v) \<noteq> m_buffer (m_data w)"
    by (elim conjE)
  show "m_buffer (m_data v) \<noteq> m_buffer (m_data w)"
    if a: "vectors st this = Some v" "vectors st other = Some w" "this \<noteq> other"
      "m_buffer (m_data v) \<noteq> 0" for this other v w
    using d a by blast
qed

lemma store_inv_update:
  assumes inv: "store_inv st"
    and vs: "vectors st' = (vectors st)(this := vo)"
    and nb: "next_block st \<le> next_block st'"
    and fresh: "\<forall>a. next_block st' \<le> a \<longrightarrow> heap st' a = None"
    and null: "heap st' 0 = None"
    and frame: "\<forall>a. a < next_block st \<longrightarrow> (\<forall>v. vectors st this = Some v \<longrightarrow> a \<noteq> m_buffer (m_data v)) \<longrightarrow>
                  map_option (map is_live) (heap st' a) = map_option (map is_live) (heap st a)"
    and new: "\<forall>v'. vo = Some v' \<longrightarrow> vector_inv st' v' \<and>
                (m_buffer (m_data v') = 0 \<or> next_block st \<le> m_buffer (m_data v') \<or>
                 (\<exists>v. vectors st this = Some v \<and> m_buffer (m_data v') = m_buffer (m_data v)))"
  shows "store_inv st'"
proof -
  note h0 = store_invD(1)[OF inv] and nb0 = store_invD(2)[OF inv] and fr = store_invD(3)[OF inv]
    and vi = store_invD(4)[OF inv] and dj = store_invD(5)[OF inv]
  have lt: "\<And>that w. vectors st that = Some w \<Longrightarrow> m_buffer (m_data w) \<noteq> 0 \<Longrightarrow>
              m_buffer (m_data w) < next_block st"
  proof -
    fix that w assume w: "vectors st that = Some w" "m_buffer (m_data w) \<noteq> 0"
    have "heap st (m_buffer (m_data w)) \<noteq> None"
      using vector_inv_buffer[OF vi[OF w(1)] w(2)] by simp
    then show "m_buffer (m_data w) < next_block st"
      using fr[of "m_buffer (m_data w)"] by (cases "next_block st \<le> m_buffer (m_data w)") auto
  qed
  have other: "\<And>that w. that \<noteq> this \<Longrightarrow> vectors st that = Some w \<Longrightarrow> vector_inv st' w"
  proof -
    fix that w assume w: "that \<noteq> this" "vectors st that = Some w"
    show "vector_inv st' w"
    proof (cases "Capacity w = 0")
      case True
      then show ?thesis using vi[OF w(2)] by (simp add: vector_inv_def)
    next
      case False
      then have b0: "m_buffer (m_data w) \<noteq> 0"
        using vector_inv_block[OF vi[OF w(2)]] by simp
      have "\<forall>v. vectors st this = Some v \<longrightarrow> m_buffer (m_data w) \<noteq> m_buffer (m_data v)"
        using dj[OF w(2) _ w(1) b0] by simp
      then have "map_option (map is_live) (heap st' (m_buffer (m_data w))) =
                 map_option (map is_live) (heap st (m_buffer (m_data w)))"
        using frame lt[OF w(2) b0] by simp
      then have "vector_inv st' w = vector_inv st w" by (rule vector_inv_shape)
      then show ?thesis using vi[OF w(2)] by simp
    qed
  qed
  show ?thesis
    unfolding store_inv_def
  proof (intro conjI allI impI)
    show "heap st' 0 = None" by fact
    show "next_block st' \<noteq> 0" using nb nb0 by simp
    show "\<And>a. next_block st' \<le> a \<Longrightarrow> heap st' a = None" using fresh by blast
  next
    fix that w assume w: "vectors st' that = Some w"
    show "vector_inv st' w"
    proof (cases "that = this")
      case True
      with w vs have "vo = Some w" by simp
      with new show ?thesis by simp
    next
      case False
      with w vs have "vectors st that = Some w" by simp
      with False show ?thesis by (rule other)
    qed
  next
    fix t1 t2 v1 v2
    assume a: "vectors st' t1 = Some v1 \<and> vectors st' t2 = Some v2 \<and> t1 \<noteq> t2 \<and> m_buffer (m_data v1) \<noteq> 0"
    show "m_buffer (m_data v1) \<noteq> m_buffer (m_data v2)"
    proof (cases "t1 = this")
      case True
      with a vs have v1: "vo = Some v1" and v2: "vectors st t2 = Some v2"
        by (simp, auto split: if_splits)
      from new v1 have "m_buffer (m_data v1) = 0 \<or> next_block st \<le> m_buffer (m_data v1) \<or>
                 (\<exists>v. vectors st this = Some v \<and> m_buffer (m_data v1) = m_buffer (m_data v))" by simp
      with a consider "next_block st \<le> m_buffer (m_data v1)"
        | v where "vectors st this = Some v" "m_buffer (m_data v1) = m_buffer (m_data v)" by auto
      then show ?thesis
      proof cases
        case 1
        show ?thesis
        proof (cases "m_buffer (m_data v2) = 0")
          case True then show ?thesis using a by simp
        next
          case False then show ?thesis using lt[OF v2] 1 by simp
        qed
      next
        case 2
        then show ?thesis using dj[OF 2(1) v2] a True by simp
      qed
    next
      case False
      with a vs have v1: "vectors st t1 = Some v1" by simp
      have l1: "m_buffer (m_data v1) < next_block st" using lt[OF v1] a by blast
      show ?thesis
      proof (cases "t2 = this")
        case True
        with a vs have v2: "vo = Some v2" by simp
        from new v2 have "m_buffer (m_data v2) = 0 \<or> next_block st \<le> m_buffer (m_data v2) \<or>
                 (\<exists>v. vectors st this = Some v \<and> m_buffer (m_data v2) = m_buffer (m_data v))" by simp
        then consider "m_buffer (m_data v2) = 0" | "next_block st \<le> m_buffer (m_data v2)"
          | v where "vectors st this = Some v" "m_buffer (m_data v2) = m_buffer (m_data v)" by auto
        then show ?thesis
        proof cases
          case 1 then show ?thesis using a by simp
        next
          case 2 then show ?thesis using l1 by simp
        next
          case 3
          then show ?thesis using dj[OF v1 3(1)] a True False by simp
        qed
      next
        case t2: False
        with a vs have v2: "vectors st t2 = Some v2" by simp
        show ?thesis using dj[OF v1 v2] a by simp
      qed
    qed
  qed
qed

lemma store_inv_in_place:
  assumes "store_inv st" "vectors st this = Some v" "m_buffer (m_data v) = b" "b \<noteq> 0"
    "length ys \<le> c" "c \<noteq> 0"
  shows "store_inv (in_place this b ys c st)"
proof (rule store_inv_update[OF assms(1), where this = this and vo = "Some (vector_at b ys c)"])
  have hb: "heap st b \<noteq> None \<Longrightarrow> b < next_block st"
    using assms(1) unfolding store_inv_def by (cases "next_block st \<le> b") auto
  show "vectors (in_place this b ys c st) = (vectors st)(this \<mapsto> vector_at b ys c)" by simp
  show "next_block st \<le> next_block (in_place this b ys c st)" by simp
  show "heap (in_place this b ys c st) 0 = None"
    using assms(1,4) by (simp add: store_inv_def)
  show "\<forall>a. a < next_block st \<longrightarrow> (\<forall>v. vectors st this = Some v \<longrightarrow> a \<noteq> m_buffer (m_data v)) \<longrightarrow>
          map_option (map is_live) (heap (in_place this b ys c st) a) = map_option (map is_live) (heap st a)"
    using assms(2,3) by auto
  show "\<forall>v'. Some (vector_at b ys c) = Some v' \<longrightarrow> vector_inv (in_place this b ys c st) v' \<and>
          (m_buffer (m_data v') = 0 \<or> next_block st \<le> m_buffer (m_data v') \<or>
           (\<exists>v. vectors st this = Some v \<and> m_buffer (m_data v') = m_buffer (m_data v)))"
    using assms owns_vector_inv[OF owns_in_place[OF assms(4,5,6), of this st]] by auto
  have "vector_inv st v" using assms(1,2) unfolding store_inv_def by simp
  then have "heap st b \<noteq> None" using vector_inv_buffer[of st v] assms(3,4) by simp
  then have "b < next_block st" by (rule hb)
  then show "\<forall>a. next_block (in_place this b ys c st) \<le> a \<longrightarrow> heap (in_place this b ys c st) a = None"
    using assms(1) by (auto simp: store_inv_def)
qed

lemma store_inv_reallocated:
  assumes "store_inv st" "vectors st this = Some v" "m_buffer (m_data v) = b"
    "length ys \<le> c" "c \<noteq> 0"
  shows "store_inv (reallocated this b ys c st)"
proof (rule store_inv_update[OF assms(1), where this = this and vo = "Some (vector_at (next_block st) ys c)"])
  let ?st' = "reallocated this b ys c st"
  have nb0: "next_block st \<noteq> 0" and h0: "heap st 0 = None"
    and fr: "\<And>a. next_block st \<le> a \<Longrightarrow> heap st a = None"
    using assms(1) unfolding store_inv_def by simp_all
  have bn: "b \<noteq> next_block st"
  proof (cases "b = 0")
    case True then show ?thesis using nb0 by simp
  next
    case False
    have "vector_inv st v" using assms(1,2) unfolding store_inv_def by simp
    then have "heap st b \<noteq> None" using vector_inv_buffer[of st v] False assms(3) by simp
    then show ?thesis using fr[of b] by auto
  qed
  show "vectors ?st' = (vectors st)(this \<mapsto> vector_at (next_block st) ys c)" by simp
  show "next_block st \<le> next_block ?st'" by simp
  show "\<forall>a. next_block ?st' \<le> a \<longrightarrow> heap ?st' a = None"
    using fr by (auto simp: heap_reallocated)
  show "heap ?st' 0 = None" using nb0 h0 by (simp add: heap_reallocated)
  show "\<forall>a. a < next_block st \<longrightarrow> (\<forall>v. vectors st this = Some v \<longrightarrow> a \<noteq> m_buffer (m_data v)) \<longrightarrow>
          map_option (map is_live) (heap ?st' a) = map_option (map is_live) (heap st a)"
    using assms(2,3) by (auto simp: heap_reallocated)
  show "\<forall>v'. Some (vector_at (next_block st) ys c) = Some v' \<longrightarrow> vector_inv ?st' v' \<and>
          (m_buffer (m_data v') = 0 \<or> next_block st \<le> m_buffer (m_data v') \<or>
           (\<exists>v. vectors st this = Some v \<and> m_buffer (m_data v') = m_buffer (m_data v)))"
    using owns_vector_inv[OF owns_reallocated[OF bn nb0 assms(4,5), of this]] by auto
qed

subsection \<open>Growth of the capacity\<close>

lemma store_inv_empty_vector_store: "store_inv (empty_vector_store this)"
  by (auto simp: store_inv_def empty_vector_store_def vector_inv_def RawMemory_default_def
        Capacity_def split: if_splits)

lemma owns_empty_vector_store:
  "owns (empty_vector_store this) \<lparr>m_data = RawMemory_default, m_size = 0\<rparr> []"
  by (simp add: owns_def RawMemory_default_def Capacity_def)

lemma and_then_ReturnedE:
  "and_then m f = Returned r s \<Longrightarrow> (\<And>r' s'. m = Returned r' s' \<Longrightarrow> f r' s' = Returned r s \<Longrightarrow> P) \<Longrightarrow> P"
  by (cases m) auto

lemma Deallocate_vectors: "Deallocate b st = Returned r st' \<Longrightarrow> vectors st' = vectors st"
  by (auto simp: Deallocate_def split: if_splits option.splits)

lemma RawMemory_capacity: "RawMemory E n st = Returned m st1 \<Longrightarrow> m_capacity m = n"
  by (auto simp: RawMemory_def Allocate_def split: if_splits)

lemma Emplace_realloc_Returned:
  assumes "Emplace_realloc E this v pos args st = Returned p st'"
  shows "\<exists>v'. vectors st' this = Some v' \<and>
              Capacity v' = (if Capacity v = 0 then 1 else Capacity v * 2) \<and>
              m_size v' = m_size v + 1"
proof -
  let ?sz = "if Capacity v = 0 then 1 else Capacity v * 2"
  from assms obtain new_data st1 st5 where
    rm: "RawMemory E ?sz st = Returned new_data st1"
    and dt: "RawMemory_dtor \<lparr>m_buffer = m_buffer (m_data v), m_capacity = m_capacity (m_data v)\<rparr>
              (put_vector this \<lparr>m_data = \<lparr>m_buffer = m_buffer new_data, m_capacity = m_capacity new_data\<rparr>,
                                m_size = m_size v + 1\<rparr> st5) = Returned () st'"
    unfolding Emplace_realloc_def Let_def RawMemory_Swap_def
    by (auto elim!: and_then_ReturnedE)
  from dt have "vectors st' this =
      Some \<lparr>m_data = \<lparr>m_buffer = m_buffer new_data, m_capacity = m_capacity new_data\<rparr>, m_size = m_size v + 1\<rparr>"
    by (auto simp: RawMemory_dtor_def dest!: Deallocate_vectors)
  with RawMemory_capacity[OF rm] show ?thesis by (simp add: Capacity_def)
qed


lemma PushBack_copy_closed:
  assumes inv: "store_inv st" and v: "vectors st this = Some v" and own: "owns st v ys"
    and nt: "\<forall>y\<in>set ys. never_throws E y" and ntx: "never_throws E x"
    and ft: "length ys = Capacity v \<longrightarrow> bytes_fit E (if Capacity v = 0 then 1 else Capacity v * 2)"
  shows "PushBack_copy E this x st =
     (if length ys < Capacity v
      then Returned () (in_place this (m_buffer (m_data v)) (ys @ [x]) (Capacity v) st)
      else if alloc_fails E (if Capacity v = 0 then 1 else Capacity v * 2) then Threw bad_alloc st
      else Returned () (reallocated this (m_buffer (m_data v)) (ys @ [x])
                          (if Capacity v = 0 then 1 else Capacity v * 2) st))"
proof -
  have c: "\<not> copy_ctor_throws E x" using ntx by (simp add: never_throws_def)
  have "Emplace E this (m_buffer (m_data v), length ys) (Some x) st =
     (if length ys < Capacity v
      then Returned (m_buffer (m_data v), length ys)
             (in_place this (m_buffer (m_data v)) (ys @ [x]) (Capacity v) st)
      else if alloc_fails E (if Capacity v = 0 then 1 else Capacity v * 2) then Threw bad_alloc st
      else Returned (next_block st, length ys)
             (reallocated this (m_buffer (m_data v)) (ys @ [x])
                (if Capacity v = 0 then 1 else Capacity v * 2) st))"
    using Emplace_closed[OF inv v own _ nt, of "length ys" "Some x"] ntx ft by simp
  then show ?thesis
    using v c by (simp add: PushBack_copy_def EmplaceBack_def Vector_end_owns[OF own])
qed

lemma PushBack_all_capacity:
  assumes "store_inv st" and "vectors st this = Some v" and "owns st v ys"
    and "\<forall>x\<in>set xs. never_throws E x" and "\<forall>y\<in>set ys. never_throws E y"
    and "\<forall>n. \<not> alloc_fails E n"
    and "Capacity v = 0 \<or> (\<exists>j. Capacity v = 2 ^ j \<and> Capacity v < 2 * length ys)"
    and "bytes_fit E (2 * length (ys @ xs))"
  shows "\<exists>st' v'. PushBack_all E this xs st = Returned () st' \<and> store_inv st' \<and>
           vectors st' this = Some v' \<and> owns st' v' (ys @ xs) \<and>
           (Capacity v' = 0 \<or> (\<exists>j. Capacity v' = 2 ^ j \<and> Capacity v' < 2 * length (ys @ xs)))"
  using assms
proof (induction xs arbitrary: st v ys)
  case Nil
  then show ?case by auto
next
  case (Cons x xs)
  let ?b = "m_buffer (m_data v)" and ?c = "Capacity v"
  let ?sz = "if ?c = 0 then 1 else ?c * 2"
  from Cons.prems(3) have le: "length ys \<le> ?c" using owns_size by blast
  have ntx: "never_throws E x" and ntxs: "\<forall>x\<in>set xs. never_throws E x"
    using Cons.prems(4) by simp_all
  have nty: "\<forall>y\<in>set (ys @ [x]). never_throws E y" using Cons.prems(5) ntx by simp
  have ftz: "length ys = ?c \<longrightarrow> bytes_fit E ?sz"
  proof
    assume "length ys = ?c"
    then have "?sz \<le> 2 * length (ys @ x # xs)" by simp
    with Cons.prems(8) show "bytes_fit E ?sz" by (rule bytes_fit_mono)
  qed
  have ftxs: "bytes_fit E (2 * length ((ys @ [x]) @ xs))" using Cons.prems(8) by simp
  have pb: "PushBack_copy E this x st =
     (if length ys < ?c then Returned () (in_place this ?b (ys @ [x]) ?c st)
      else Returned () (reallocated this ?b (ys @ [x]) ?sz st))"
    using PushBack_copy_closed[OF Cons.prems(1,2,3,5) ntx ftz] Cons.prems(6) by simp
  have "\<exists>st1 v1. PushBack_copy E this x st = Returned () st1 \<and> store_inv st1 \<and>
          vectors st1 this = Some v1 \<and> owns st1 v1 (ys @ [x]) \<and>
          (Capacity v1 = 0 \<or> (\<exists>j. Capacity v1 = 2 ^ j \<and> Capacity v1 < 2 * length (ys @ [x])))"
  proof (cases "length ys < ?c")
    case True
    then have c0: "?c \<noteq> 0" by simp
    with Cons.prems(3) have b0: "?b \<noteq> 0" using owns_block by blast
    let ?st1 = "in_place this ?b (ys @ [x]) ?c st" and ?v1 = "vector_at ?b (ys @ [x]) ?c"
    have i: "store_inv ?st1"
      using Cons.prems(1,2) _ b0 _ c0 by (rule store_inv_in_place) (use True in simp_all)
    have o: "owns ?st1 ?v1 (ys @ [x])" using b0 c0 True by (intro owns_in_place) simp_all
    from Cons.prems(7) c0 obtain j where "?c = 2 ^ j" "?c < 2 * length ys" by blast
    then have "Capacity ?v1 = 2 ^ j \<and> Capacity ?v1 < 2 * length (ys @ [x])" by simp
    then show ?thesis
      using pb True i o by (intro exI[of _ ?st1] exI[of _ ?v1]) auto
  next
    case False
    with le have full: "length ys = ?c" by simp
    have bn: "?b \<noteq> next_block st" using Cons.prems(1,3) by (rule owns_buffer_fresh)
    have nb0: "next_block st \<noteq> 0" using Cons.prems(1) store_inv_fresh by blast
    have lsz: "length (ys @ [x]) \<le> ?sz" using full by simp
    let ?st1 = "reallocated this ?b (ys @ [x]) ?sz st" and ?v1 = "vector_at (next_block st) (ys @ [x]) ?sz"
    have i: "store_inv ?st1"
      using Cons.prems(1,2) _ lsz by (rule store_inv_reallocated) simp_all
    have o: "owns ?st1 ?v1 (ys @ [x])" using bn nb0 lsz by (intro owns_reallocated) simp_all
    have "\<exists>j. ?sz = 2 ^ j \<and> ?sz < 2 * length (ys @ [x])"
    proof (cases "?c = 0")
      case True
      then show ?thesis by (intro exI[of _ 0]) simp
    next
      case c0: False
      with Cons.prems(7) obtain j where j: "?c = 2 ^ j" by blast
      show ?thesis using c0 j full by (intro exI[of _ "Suc j"]) simp
    qed
    then have "\<exists>j. Capacity ?v1 = 2 ^ j \<and> Capacity ?v1 < 2 * length (ys @ [x])" by simp
    then show ?thesis
      using pb False i o by (intro exI[of _ ?st1] exI[of _ ?v1]) auto
  qed
  then obtain st1 v1 where s1: "PushBack_copy E this x st = Returned () st1" "store_inv st1"
    "vectors st1 this = Some v1" "owns st1 v1 (ys @ [x])"
    "Capacity v1 = 0 \<or> (\<exists>j. Capacity v1 = 2 ^ j \<and> Capacity v1 < 2 * length (ys @ [x]))"
    by blast
  from Cons.IH[OF s1(2,3,4) ntxs nty Cons.prems(6) s1(5) ftxs] s1(1)
  show ?case by simp
qed

lemma pow2_bound:
  fixes c n :: nat
  assumes "c = 2 ^ j" "c < 2 * n" "n \<le> 2 ^ k"
  shows "c \<le> 2 ^ k"
proof -
  have "(2 :: nat) ^ j < 2 ^ Suc k" using assms by simp
  then have "j < Suc k" by (simp del: power_Suc)
  then have "j \<le> k" by simp
  then show ?thesis using assms(1) by (simp add: power_increasing)
qed

lemma Emplace_in_place_Returned:
  assumes "Emplace_in_place E this v pos args st = Returned p st'"
  shows "vectors st' this = Some (v\<lparr>m_size := m_size v + 1\<rparr>)"
  using assms unfolding Emplace_in_place_def
  by (auto elim!: and_then_ReturnedE split: if_splits option.splits simp: put_vector_def)

lemma Emplace_Returned:
  assumes "vectors st this = Some v" and "Emplace E this pos args st = Returned p st'"
  shows "\<exists>v'. vectors st' this = Some v' \<and> m_size v' = m_size v + 1 \<and>
              Capacity v' = (if m_size v < Capacity v then Capacity v
                             else if Capacity v = 0 then 1 else Capacity v * 2)"
proof (cases "m_size v < Capacity v")
  case True
  with assms have "Emplace_in_place E this v pos args st = Returned p st'"
    by (auto simp: Emplace_def split: if_splits)
  from Emplace_in_place_Returned[OF this] True show ?thesis by (simp add: Capacity_def)
next
  case False
  with assms have "Emplace_realloc E this v pos args st = Returned p st'"
    by (auto simp: Emplace_def split: if_splits)
  from Emplace_realloc_Returned[OF this] False show ?thesis by auto
qed

lemma PushBack_copy_Returned:
  assumes "vectors st this = Some v" and "PushBack_copy E this x st = Returned () st'"
  shows "\<exists>v'. vectors st' this = Some v' \<and> m_size v' = m_size v + 1 \<and>
              Capacity v' = (if m_size v < Capacity v then Capacity v
                             else if Capacity v = 0 then 1 else Capacity v * 2)"
proof -
  from assms obtain p where
    "Emplace E this (Vector_end v) (if copy_ctor_throws E x then None else Some x) st = Returned p st'"
    unfolding PushBack_copy_def EmplaceBack_def by (auto elim!: and_then_ReturnedE)
  from Emplace_Returned[OF assms(1) this] show ?thesis .
qed

lemma PushBack_all_Returned:
  assumes "vectors st this = Some v" and "PushBack_all E this xs st = Returned () st'"
    and "m_size v \<le> Capacity v"
    and "Capacity v = 0 \<or> (\<exists>j. Capacity v = 2 ^ j \<and> Capacity v < 2 * m_size v)"
  shows "\<exists>v'. vectors st' this = Some v' \<and> m_size v' = m_size v + length xs \<and>
              m_size v' \<le> Capacity v' \<and>
              (Capacity v' = 0 \<or> (\<exists>j. Capacity v' = 2 ^ j \<and> Capacity v' < 2 * m_size v'))"
  using assms
proof (induction xs arbitrary: st v)
  case Nil
  then show ?case by auto
next
  case (Cons x xs)
  from Cons.prems(2) obtain st1 where p: "PushBack_copy E this x st = Returned () st1"
    and r: "PushBack_all E this xs st1 = Returned () st'"
    by (auto elim!: and_then_ReturnedE)
  from PushBack_copy_Returned[OF Cons.prems(1) p] obtain v1 where
    v1: "vectors st1 this = Some v1" "m_size v1 = m_size v + 1"
    "Capacity v1 = (if m_size v < Capacity v then Capacity v
                    else if Capacity v = 0 then 1 else Capacity v * 2)"
    by blast
  have le: "m_size v1 \<le> Capacity v1" using v1(2,3) Cons.prems(3) by auto
  have pw: "Capacity v1 = 0 \<or> (\<exists>j. Capacity v1 = 2 ^ j \<and> Capacity v1 < 2 * m_size v1)"
  proof (cases "m_size v < Capacity v")
    case True
    with Cons.prems(4) obtain j where "Capacity v = 2 ^ j" "Capacity v < 2 * m_size v" by auto
    then show ?thesis using v1(2,3) True by auto
  next
    case False
    with Cons.prems(3) have full: "m_size v = Capacity v" by simp
    show ?thesis
    proof (cases "Capacity v = 0")
      case True
      then have "Capacity v1 = 2 ^ 0 \<and> Capacity v1 < 2 * m_size v1" using v1(2,3) full by simp
      then show ?thesis by blast
    next
      case c0: False
      with Cons.prems(4) obtain j where j: "Capacity v = 2 ^ j" by auto
      have "Capacity v1 = 2 ^ Suc j \<and> Capacity v1 < 2 * m_size v1"
        using v1(2,3) full c0 j by simp
      then show ?thesis by blast
    qed
  qed
  from Cons.IH[OF v1(1) r le pw] v1(2) show ?case by auto
qed

subsection \<open>A byte count that wraps around\<close>

lemma value_construct_outside:
  assumes "0 < n" and "\<not> value_init_throws E i" and "slot_at st (ptr_add first i) = None"
  shows "uninit_value_construct_from E first i n st = Undefined"
proof -
  from assms(1) obtain m where "n = Suc m" by (cases n) auto
  then show ?thesis using assms(2,3) by (simp add: construct_at_def)
qed

lemma Reserve_one_slot:
  assumes "size_t_mul n (sizeof_T int_env) div sizeof_T int_env = 1" and "1 < n"
  shows "Reserve int_env 10 n (one_vector 10 1 [7] 1) =
      Returned () \<lparr>heap = (\<lambda>a. None)(2 \<mapsto> [Live 7]), next_block = 3,
         vectors = (\<lambda>a. None)(10 \<mapsto> \<lparr>m_data = \<lparr>m_buffer = 2, m_capacity = n\<rparr>, m_size = 1\<rparr>)\<rparr>"
proof -
  have e: "\<not> alloc_fails int_env n" "nothrow_move_constructible int_env"
    "\<not> move_ctor_throws int_env 7" "moved_from int_env 7 = 7"
    by (simp_all add: int_env_def)
  have 2: "Suc (Suc 0) = 2" "Suc 2 = 3" by simp_all
  show ?thesis
    using assms e
    by (simp add: Reserve_def one_vector_def vector_at_def block_with_def Capacity_def
          RawMemory_def Allocate_def CopyOrMoveData_def uninitialized_move_n_def
          GetAddress_def move_construct_def slot_at_def construct_at_def put_slot_def
          RawMemory_Swap_def destroy_n_def Destroy_def put_vector_def RawMemory_dtor_def Deallocate_def
          fun_upd_twist 2)
qed

lemma Reserve_no_room:
  assumes "size_t_mul n (sizeof_T int_env) div sizeof_T int_env = 1" and "3 < n"
  shows "Reserve int_env 10 n (one_vector 10 1 [1, 2, 3] 3) = Undefined"
proof -
  have e: "\<not> alloc_fails int_env n" "nothrow_move_constructible int_env"
    "\<And>x. \<not> move_ctor_throws int_env x" "\<And>x. moved_from int_env x = x"
    by (simp_all add: int_env_def)
  show ?thesis
    using assms e
    by (simp add: Reserve_def one_vector_def vector_at_def block_with_def Capacity_def
          RawMemory_def Allocate_def CopyOrMoveData_def uninitialized_move_n_def
          GetAddress_def move_construct_def slot_at_def construct_at_def put_slot_def)
qed

lemma Resize_no_room:
  assumes "size_t_mul n (sizeof_T int_env) div sizeof_T int_env = 1" and "1 < n"
  shows "Resize int_env 10 n (one_vector 10 1 [7] 1) = Undefined"
proof -
  let ?st1 = "\<lparr>heap = (\<lambda>a. None)(2 \<mapsto> [Live (7 :: int)]), next_block = 3,
         vectors = (\<lambda>a. None)(10 \<mapsto> \<lparr>m_data = \<lparr>m_buffer = 2, m_capacity = n\<rparr>, m_size = 1\<rparr>)\<rparr>"
  have u: "uninit_value_construct_from int_env (2, 1) 0 (n - 1) ?st1 = Undefined"
  proof (rule value_construct_outside)
    show "0 < n - 1" using assms(2) by simp
    show "\<not> value_init_throws int_env 0" by (simp add: int_env_def)
    show "slot_at ?st1 (ptr_add (2, 1) 0) = None" by (simp add: slot_at_def)
  qed
  have v: "vectors (one_vector 10 1 [7 :: int] 1) 10 = Some (vector_at 1 [7 :: int] 1)"
    by (simp add: one_vector_def)
  show ?thesis
    using assms(2) u
    by (simp add: Resize_def v[unfolded One_nat_def] Reserve_one_slot[OF assms, unfolded One_nat_def]
          vector_at_def GetAddress_def uninitialized_value_construct_n_def)
qed

section \<open>Moving and self-assignment\<close>

lemma raw_memory_eta [simp]: "\<lparr>m_buffer = m_buffer m, m_capacity = m_capacity m\<rparr> = m"
  by simp

lemma vector_eta [simp]: "\<lparr>m_data = m_data v, m_size = m_size v\<rparr> = v"
  by simp

lemma Swap_vectors:
  "vectors st this = Some v \<Longrightarrow> vectors st other = Some w \<Longrightarrow>
   Swap this other st = Returned () (put_vector this w (put_vector other v st))"
  by (simp add: Swap_def RawMemory_Swap_def)

text \<open>
  C5, as the code has it. Move construction of \<open>b\<close> from \<open>a\<close> leaves \<open>a\<close> with size 0 and
  capacity 0, and \<open>b\<close> with the size, capacity and block of \<open>a\<close>. Move assignment of \<open>a\<close> to
  a different vector \<open>b\<close> exchanges the two: \<open>b\<close> gets the size, capacity and block of \<open>a\<close>,
  and \<open>a\<close> gets those \<open>b\<close> had. Both return, and neither touches a block.
\<close>

theorem move_exchanges:
  assumes "vectors st a = Some va" and "b \<noteq> a"
  shows "(\<exists>st'. Vector_move b a st = Returned () st' \<and> heap st' = heap st \<and>
               vectors st' b = Some va \<and>
               (\<exists>va'. vectors st' a = Some va' \<and> Size va' = 0 \<and> Capacity va' = 0)) \<and>
         (\<forall>vb. vectors st b = Some vb \<longrightarrow>
            (\<exists>st'. move_assign b a st = Returned () st' \<and> heap st' = heap st \<and>
                   vectors st' b = Some va \<and> vectors st' a = Some vb))"
  using assms
  by (simp add: Vector_move_def move_assign_def Swap_vectors put_vector_def
        RawMemory_default_def Size_def Capacity_def)

theorem move_exchanges_witness:
  "returned (Vector_move 20 10 (one_vector 10 1 [4, 5 :: int] 2)) \<and>
   vector_after (Vector_move 20 10 (one_vector 10 1 [4, 5 :: int] 2)) 20 = Some (vector_at 1 [4, 5 :: int] 2) \<and>
   vector_after (move_assign 20 10 (two_vectors [1 :: int] [2, 3])) 20 = Some (vector_at 1 [1 :: int] 1) \<and>
   vector_after (move_assign 20 10 (two_vectors [1 :: int] [2, 3])) 10 = Some (vector_at 2 [2, 3 :: int] 2)"
proof -
  let ?st = "one_vector 10 1 [4, 5 :: int] 2" and ?tw = "two_vectors [1 :: int] [2, 3]"
  have a: "vectors ?st 10 = Some (vector_at 1 [4, 5 :: int] 2)"
    by (simp add: one_vector_def)
  have b: "vectors ?tw 10 = Some (vector_at 1 [1 :: int] 1)"
          "vectors ?tw 20 = Some (vector_at 2 [2, 3 :: int] 2)"
    by (simp_all add: two_vectors_def numeral_2_eq_2)
  have n: "(20 :: nat) \<noteq> 10" by simp
  from move_exchanges[OF a n]
  have 1: "returned (Vector_move 20 10 ?st) \<and>
           vector_after (Vector_move 20 10 ?st) 20 = Some (vector_at 1 [4, 5 :: int] 2)"
    by auto
  from move_exchanges[OF b(1) n] b(2)
  have 2: "vector_after (move_assign 20 10 ?tw) 20 = Some (vector_at 1 [1 :: int] 1) \<and>
           vector_after (move_assign 20 10 ?tw) 10 = Some (vector_at 2 [2, 3 :: int] 2)"
    by auto
  from 1 2 show ?thesis by simp
qed

text \<open>
  The claim C5 as stated fails for move assignment into a vector that is not empty: the
  moved-from vector ends with what the target held.
\<close>

theorem move_assign_source_not_empty:
  "vector_after (move_assign 20 10 (two_vectors [1 :: int] [2, 3])) 10 =
     Some \<lparr>m_data = \<lparr>m_buffer = 2, m_capacity = 2\<rparr>, m_size = 2\<rparr>"
  by (simp add: move_assign_def Swap_def RawMemory_Swap_def two_vectors_def put_vector_def
        vector_at_def)

text \<open>
  C10: assigning a vector to itself, by copy or by move, returns and leaves the whole store
  as it was.
\<close>

theorem self_assignment_noop:
  assumes "vectors st this = Some v"
  shows "copy_assign E this this st = Returned () st \<and> move_assign this this st = Returned () st"
  using assms by (simp add: copy_assign_def move_assign_def)

theorem self_assignment_noop_witness:
  "copy_assign int_env 10 10 (one_vector 10 1 [4, 5] 2) = Returned () (one_vector 10 1 [4, 5] 2) \<and>
   move_assign 10 10 (one_vector 10 1 [4, 5 :: int] 2) = Returned () (one_vector 10 1 [4, 5] 2)"
proof -
  have "vectors (one_vector 10 1 [4, 5 :: int] 2) 10 = Some (vector_at 1 [4, 5 :: int] 2)"
    by (simp add: one_vector_def)
  from self_assignment_noop[OF this] show ?thesis by simp
qed

section \<open>Failure of a transfer while Emplace reallocates\<close>

text \<open>
  C1 on the code. The vector holds \<open>[1, 2]\<close> at capacity 2, in block 1; the copy
  constructor of the element type throws on the value 1, respectively 2; \<open>9\<close> is emplaced
  at \<^verbatim>\<open>begin() + 1\<close>. In both cases the call returns, with size 3 and the new block adopted:
  after the failure in the prefix the new block holds only the copy of 2, after the failure
  in the suffix only the 9; the old block is released and its elements are destroyed.
\<close>

theorem Emplace_realloc_swallows_failure:
  "returned (Emplace (copy_throws_on 1) 10 (1, 1) (Some 9) (one_vector 10 1 [1, 2] 2)) \<and>
   block_after (Emplace (copy_throws_on 1) 10 (1, 1) (Some 9) (one_vector 10 1 [1, 2] 2)) 2
     = Some [Raw, Raw, Live 2, Raw] \<and>
   block_after (Emplace (copy_throws_on 1) 10 (1, 1) (Some 9) (one_vector 10 1 [1, 2] 2)) 1 = None \<and>
   vector_after (Emplace (copy_throws_on 1) 10 (1, 1) (Some 9) (one_vector 10 1 [1, 2] 2)) 10
     = Some \<lparr>m_data = \<lparr>m_buffer = 2, m_capacity = 4\<rparr>, m_size = 3\<rparr> \<and>
   returned (Emplace (copy_throws_on 2) 10 (1, 1) (Some 9) (one_vector 10 1 [1, 2] 2)) \<and>
   block_after (Emplace (copy_throws_on 2) 10 (1, 1) (Some 9) (one_vector 10 1 [1, 2] 2)) 2
     = Some [Raw, Live 9, Raw, Raw] \<and>
   block_after (Emplace (copy_throws_on 2) 10 (1, 1) (Some 9) (one_vector 10 1 [1, 2] 2)) 1 = None \<and>
   vector_after (Emplace (copy_throws_on 2) 10 (1, 1) (Some 9) (one_vector 10 1 [1, 2] 2)) 10
     = Some \<lparr>m_data = \<lparr>m_buffer = 2, m_capacity = 4\<rparr>, m_size = 3\<rparr>"
  by code_simp

text \<open>So the vector is not as it was before the call, and no failure reached the caller.\<close>

theorem Emplace_realloc_swallows_failure_witness:
  "thrown (Emplace (copy_throws_on 1) 10 (1, 1) (Some 9) (one_vector 10 1 [1, 2] 2)) = None \<and>
   vector_after (Emplace (copy_throws_on 1) 10 (1, 1) (Some 9) (one_vector 10 1 [1, 2] 2)) 10
     \<noteq> vectors (one_vector 10 1 [1, 2] 2) 10"
  using Emplace_realloc_swallows_failure
  by (cases "Emplace (copy_throws_on 1) 10 (1, 1) (Some 9) (one_vector 10 1 [1, 2] 2)")
     (simp_all add: one_vector_def vector_at_def)

section \<open>Copy assignment\<close>

text \<open>What copy assignment does, in each case.\<close>

lemma owns_frame:
  "heap st' (m_buffer (m_data w)) = heap st (m_buffer (m_data w)) \<Longrightarrow> owns st' w ys = owns st w ys"
  by (simp add: owns_def)

lemma put_vector_same: "vectors st this = Some v \<Longrightarrow> put_vector this v st = st"
  by (simp add: put_vector_def map_upd_triv)

lemma overwrite_block_with_take_live:
  assumes "length ok \<le> length xs" "length xs \<le> c"
  shows "overwrite (overwrite (block_with xs c) 0 (map Live ok)) (length ok) (replicate (length xs - length ok) Raw)
         = block_with ok c"
proof (rule nth_equalityI)
  show "length (overwrite (overwrite (block_with xs c) 0 (map Live ok)) (length ok) (replicate (length xs - length ok) Raw))
        = length (block_with ok c)"
    using assms by simp
next
  fix i assume "i < length (overwrite (overwrite (block_with xs c) 0 (map Live ok)) (length ok) (replicate (length xs - length ok) Raw))"
  with assms have i: "i < c" by simp
  have l1: "0 + length (map Live ok) \<le> length (block_with xs c)" using assms by simp
  have l2: "length ok + length (replicate (length xs - length ok) (Raw :: 'a slot)) \<le>
            length (overwrite (block_with xs c) 0 (map Live ok))" using assms by simp
  show "overwrite (overwrite (block_with xs c) 0 (map Live ok)) (length ok) (replicate (length xs - length ok) Raw) ! i
        = block_with ok c ! i"
    using assms i by (auto simp: nth_overwrite[OF l2] nth_overwrite[OF l1] nth_block_with)
qed

lemma overwrite_block_with_prefix:
  assumes "length ok = length xs" "length xs \<le> c"
  shows "overwrite (block_with xs c) 0 (map Live ok) = block_with ok c"
  using assms by (simp add: overwrite_def block_with_def)

lemma copy_assign_closed:
  assumes inv: "store_inv st" and va: "vectors st a = Some va" and vb: "vectors st b = Some vb"
    and ab: "a \<noteq> b" and oa: "owns st va xs" and ob: "owns st vb ys"
    and ft: "Capacity va < length ys \<longrightarrow> bytes_fit E (length ys)"
  shows "copy_assign E a b st =
    (if Capacity va < length ys then
       (if alloc_fails E (length ys) then Threw bad_alloc st
        else if \<exists>y\<in>set ys. copy_ctor_throws E y
        then Threw elem_exn (release (next_block st) (new_block (length ys) st))
        else Returned () (reallocated a (m_buffer (m_data va)) ys (length ys) st))
     else if Capacity va = 0 then Returned () st
     else if length (takeWhile (\<lambda>y. \<not> copy_assign_throws E y) (take (length xs) ys))
               < min (length xs) (length ys)
     then Threw elem_exn
            (set_block (m_buffer (m_data va))
               (overwrite (block_with xs (Capacity va)) 0
                  (map Live (takeWhile (\<lambda>y. \<not> copy_assign_throws E y) (take (length xs) ys)))) st)
     else if \<exists>y\<in>set (drop (length xs) ys). copy_ctor_throws E y
     then Threw elem_exn (in_place a (m_buffer (m_data va)) (take (length xs) ys) (Capacity va) st)
     else Returned () (in_place a (m_buffer (m_data va)) ys (Capacity va) st))"
proof -
  let ?ba = "m_buffer (m_data va)" and ?ca = "Capacity va"
  let ?bb = "m_buffer (m_data vb)" and ?cb = "Capacity vb"
  let ?nb = "next_block st"
  from oa have sa: "m_size va = length xs" and la: "length xs \<le> ?ca" using owns_size by blast+
  from ob have sb: "m_size vb = length ys" and lb: "length ys \<le> ?cb" using owns_size by blast+
  have da: "m_data va = \<lparr>m_buffer = ?ba, m_capacity = ?ca\<rparr>" by (simp add: Capacity_def)
  have ban: "?ba \<noteq> ?nb" using inv oa by (rule owns_buffer_fresh)
  have bbn: "?bb \<noteq> ?nb" using inv ob by (rule owns_buffer_fresh)
  have cs: "copy_assign E a b st =
      (if m_size vb > Capacity va then
               and_then (Vector_copy_value E vb st) (\<lambda>rhs_copy st1.
               and_then (Vector_dtor_value va (put_vector a rhs_copy st1)) (\<lambda>_ st2.
               Returned () (put_vector a (rhs_copy\<lparr>m_size := m_size vb\<rparr>) st2)))
             else if m_size va > m_size vb then
               and_then (std_copy E (GetAddress (m_data vb))
                           (ptr_add (GetAddress (m_data vb)) (m_size vb))
                           (GetAddress (m_data va)) st) (\<lambda>_ st1.
               and_then (destroy_n (ptr_add (GetAddress (m_data va)) (m_size vb))
                           (m_size va - m_size vb) st1) (\<lambda>_ st2.
               Returned () (put_vector a (va\<lparr>m_size := m_size vb\<rparr>) st2)))
             else
               and_then (std_copy E (GetAddress (m_data vb))
                           (ptr_add (GetAddress (m_data vb)) (m_size va))
                           (GetAddress (m_data va)) st) (\<lambda>_ st1.
               and_then (uninitialized_copy_n E (ptr_add (GetAddress (m_data vb)) (m_size va))
                           (m_size vb - m_size va)
                           (ptr_add (GetAddress (m_data va)) (m_size va)) st1) (\<lambda>_ st2.
               Returned () (put_vector a (va\<lparr>m_size := m_size vb\<rparr>) st2))))"
    using va vb ab unfolding copy_assign_def by (simp del: vector_size_update)
  show ?thesis
  proof (cases "?ca < length ys")
    case True
    with ft have ftn: "bytes_fit E (length ys)" by simp
    from True have n0: "length ys \<noteq> 0" and cb0: "?cb \<noteq> 0" using lb by linarith+
    from ob cb0 have hb: "heap st ?bb = Some (block_with ys ?cb)" using owns_block by blast
    let ?st1 = "new_block (length ys) st"
    have h1: "heap ?st1 ?bb = Some (block_with ys ?cb)" "heap ?st1 ?nb = Some (replicate (length ys) Raw)"
      using hb bbn by simp_all
    have uc: "uninit_copy_from E (?bb, 0) (?nb, 0) 0 (length ys) ?st1 =
       (if \<exists>v\<in>set ys. copy_ctor_throws E v
        then Threw elem_exn (set_block ?nb (overwrite (replicate (length ys) Raw) 0 (replicate 0 Raw)) ?st1)
        else Returned () (set_block ?nb (overwrite (replicate (length ys) Raw) (0 + 0) (map Live ys)) ?st1))"
      using uninit_copy_from_block[OF h1(1) h1(2) bbn, of 0 0 ys 0 E] lb
      by (simp add: block_with_live)
    have e1: "set_block ?nb (replicate (length ys) Raw) ?st1 = ?st1"
      by (intro set_block_same) simp
    have uc': "uninitialized_copy_n E (?bb, 0) (length ys) (?nb, 0) ?st1 =
       (if \<exists>v\<in>set ys. copy_ctor_throws E v then Threw elem_exn ?st1
        else Returned () (set_block ?nb (block_with ys (length ys)) ?st1))"
      using uc e1 by (simp add: uninitialized_copy_n_def overwrite_raw_block)
    have dl: "Deallocate ?nb ?st1 = Returned () (release ?nb ?st1)"
      by (intro Deallocate_release) simp
    have vc: "Vector_copy_value E vb st =
       (if alloc_fails E (length ys) then Threw bad_alloc st
        else if \<exists>y\<in>set ys. copy_ctor_throws E y then Threw elem_exn (release ?nb ?st1)
        else Returned \<lparr>m_data = \<lparr>m_buffer = ?nb, m_capacity = length ys\<rparr>, m_size = length ys\<rparr>
               (set_block ?nb (block_with ys (length ys)) ?st1))"
      using n0 sb uc' dl
      by (simp add: Vector_copy_value_def RawMemory_closed[OF ftn] GetAddress_def RawMemory_dtor_def)
    let ?st2 = "set_block ?nb (block_with ys (length ys)) ?st1"
    let ?rc = "\<lparr>m_data = \<lparr>m_buffer = ?nb, m_capacity = length ys\<rparr>, m_size = length ys\<rparr>"
    have dt: "Vector_dtor_value va (put_vector a ?rc ?st2) = Returned () (release ?ba (put_vector a ?rc ?st2))
              \<or> (?ba \<noteq> 0 \<and> (\<exists>blk. Vector_dtor_value va (put_vector a ?rc ?st2)
                    = Returned () (release ?ba (set_block ?ba blk (put_vector a ?rc ?st2)))))"
    proof (cases "?ca = 0")
      case c0: True
      with oa have "xs = []" "?ba = 0" "m_size va = 0" using owns_empty by blast+
      then show ?thesis
        by (simp add: Vector_dtor_value_def GetAddress_def RawMemory_dtor_def Deallocate_def)
    next
      case c0: False
      with oa have ha: "heap st ?ba = Some (block_with xs ?ca)" and b0: "?ba \<noteq> 0"
        using owns_block by blast+
      have "DestroyN (?ba, 0) (length xs) (put_vector a ?rc ?st2) =
            Returned () (set_block ?ba (overwrite (block_with xs ?ca) 0 (replicate (length xs) Raw))
                           (put_vector a ?rc ?st2))"
        using ha ban la by (intro DestroyN_block) (simp_all add: block_with_live)
      moreover have "Deallocate ?ba (set_block ?ba (overwrite (block_with xs ?ca) 0 (replicate (length xs) Raw))
                           (put_vector a ?rc ?st2))
                   = Returned () (release ?ba (set_block ?ba (overwrite (block_with xs ?ca) 0 (replicate (length xs) Raw))
                           (put_vector a ?rc ?st2)))"
        by (intro Deallocate_release) simp
      ultimately show ?thesis
        using sa b0 by (auto simp: Vector_dtor_value_def GetAddress_def RawMemory_dtor_def)
    qed
    have fin: "\<And>blk. ?ba \<noteq> 0 \<Longrightarrow>
                 put_vector a ?rc (release ?ba (set_block ?ba blk (put_vector a ?rc ?st2)))
                 = reallocated a ?ba ys (length ys) st"
      using ban by (intro store_eqI) (auto simp: heap_reallocated vector_at_def fun_upd_twist)
    have fin0: "put_vector a ?rc (release ?ba (put_vector a ?rc ?st2)) = reallocated a ?ba ys (length ys) st"
      using ban by (intro store_eqI) (auto simp: heap_reallocated vector_at_def fun_upd_twist)
    show ?thesis
      using cs True sb vc dt fin fin0 by auto
  next
    case fits: False
    show ?thesis
    proof (cases "?ca = 0")
      case True
      with fits oa have e: "ys = []" "xs = []" "m_size va = 0" using owns_empty by (simp, blast, blast)
      have "put_vector a \<lparr>m_data = m_data va, m_size = 0\<rparr> st = st"
        using va e(3) put_vector_same[OF va] by (metis vector_eta)
      then show ?thesis
        using cs fits True e sb
        by (simp add: std_copy_def uninitialized_copy_n_def GetAddress_def)
    next
      case c0: False
      let ?blk = "block_with xs ?ca"
      from oa c0 have ha: "heap st ?ba = Some ?blk" and b0: "?ba \<noteq> 0" using owns_block by blast+
      have bab: "?bb \<noteq> ?ba" using store_invD(5)[OF inv va vb ab b0] by simp
      let ?m = "min (length xs) (length ys)"
      let ?pre = "take (length xs) ys"
      let ?ok = "takeWhile (\<lambda>y. \<not> copy_assign_throws E y) ?pre"
      have lpre: "length ?pre = ?m" by (simp add: min.commute)
      have lok: "length ?ok \<le> ?m" using length_takeWhile_le[of _ ?pre] lpre by simp
      have cl: "copy_loop E (?bb, 0) (?ba, 0) ?m st =
         (if length ?ok < ?m then Threw elem_exn (set_block ?ba (overwrite ?blk 0 (map Live ?ok)) st)
          else Returned () (set_block ?ba (overwrite ?blk 0 (map Live ?ok)) st))"
      proof (cases "?m = 0")
        case True
        then have "?ok = []" using lok by simp
        then show ?thesis using True ha by (simp add: set_block_same)
      next
        case False
        then have "0 < length ys" by auto
        then have "?cb \<noteq> 0" using lb by linarith
        with ob have hb: "heap st ?bb = Some (block_with ys ?cb)" using owns_block by blast
        have "copy_loop E (?bb, 0) (?ba, 0) (length ?pre) st =
           (if length ?ok < length ?pre
            then Threw elem_exn (set_block ?ba (overwrite ?blk 0 (map Live ?ok)) st)
            else Returned () (set_block ?ba (overwrite ?blk 0 (map Live ?ok)) st))"
          using hb ha bab la lb
          by (intro copy_loop_block) (auto simp: block_with_live)
        then show ?thesis unfolding lpre .
      qed
      show ?thesis
      proof (cases "length ?ok < ?m")
        case True
        then show ?thesis
          using cs fits c0 sa sb cl
          by (auto simp: std_copy_def GetAddress_def min_def split: if_splits)
      next
        case all: False
        with lok have lok': "length ?ok = ?m" by linarith
        then have okp: "?ok = ?pre"
          using lpre by (metis takeWhile_eq_take take_all_iff order_refl)
        let ?st1 = "set_block ?ba (overwrite ?blk 0 (map Live ?pre)) st"
        from cl all have "copy_loop E (?bb, 0) (?ba, 0) ?m st =
                          Returned () (set_block ?ba (overwrite ?blk 0 (map Live ?ok)) st)"
          by (simp only: if_False)
        then have cl': "copy_loop E (?bb, 0) (?ba, 0) ?m st = Returned () ?st1"
          by (simp only: okp)
        show ?thesis
        proof (cases "length ys < length xs")
          case shrink: True
          then have pre: "?pre = ys" by simp
          have md: "?m = length ys" using shrink by simp
          have "DestroyN (?ba, length ys) (length xs - length ys) ?st1 =
                Returned () (set_block ?ba (overwrite (overwrite ?blk 0 (map Live ys)) (length ys)
                               (replicate (length xs - length ys) Raw)) ?st1)"
            using shrink la pre
            by (intro DestroyN_block) (auto simp: nth_overwrite block_with_live)
          then have d: "DestroyN (?ba, length ys) (length xs - length ys) ?st1 =
                Returned () (set_block ?ba (block_with ys ?ca) st)"
            using shrink la overwrite_block_with_take_live[of ys xs ?ca] by simp
          have nt2: "\<not> (\<exists>y\<in>set (drop (length xs) ys). copy_ctor_throws E y)" using shrink by simp
          show ?thesis
            using cs fits c0 sa sb cl' d shrink all nt2 md pre
                  set_block_in_place[OF va da, where ys = ys]
            by (simp add: std_copy_def destroy_n_def GetAddress_def)
        next
          case grow: False
          then have md: "?m = length xs" by simp
          have e: "overwrite ?blk 0 (map Live ?pre) = block_with ?pre ?ca"
            using grow la by (intro overwrite_block_with_prefix) simp_all
          have h1: "heap ?st1 ?ba = Some (block_with ?pre ?ca)" using e by simp
          have "length ?pre = m_size va" using sa grow by simp
          then have "vector_at ?ba ?pre ?ca = \<lparr>m_data = m_data va, m_size = m_size va\<rparr>"
            by (simp add: vector_at_def Capacity_def)
          then have veq: "vector_at ?ba ?pre ?ca = va" by simp
          have st1: "?st1 = in_place a ?ba ?pre ?ca st"
            by (simp add: in_place_def veq e put_vector_same va)
          show ?thesis
          proof (cases "length xs = length ys")
            case True
            then have "drop (length xs) ys = []" "?pre = ys" by simp_all
            then show ?thesis
              using cs fits c0 sa sb cl' True all md e
                    set_block_in_place[OF va da, where ys = ys]
              by (simp add: std_copy_def uninitialized_copy_n_def GetAddress_def)
          next
            case False
            with grow have lt: "length xs < length ys" by simp
            then have cb0: "?cb \<noteq> 0" using lb by linarith
            with ob have hb: "heap st ?bb = Some (block_with ys ?cb)" using owns_block by blast
            have hb1: "heap ?st1 ?bb = Some (block_with ys ?cb)" using hb bab by simp
            let ?rest = "drop (length xs) ys"
            have uc: "uninit_copy_from E (?bb, length xs) (?ba, length xs) 0 (length ?rest) ?st1 =
               (if \<exists>v\<in>set ?rest. copy_ctor_throws E v
                then Threw elem_exn (set_block ?ba (overwrite (block_with ?pre ?ca) (length xs) (replicate 0 Raw)) ?st1)
                else Returned () (set_block ?ba (overwrite (block_with ?pre ?ca) (length xs + 0) (map Live ?rest)) ?st1))"
              using uninit_copy_from_block[OF hb1 h1 bab, of "length xs" 0 ?rest "length xs" E] lb lt fits
              by (simp add: block_with_live block_with_raw)
            have ap: "overwrite (block_with ?pre ?ca) (length xs) (map Live ?rest) = block_with ys ?ca"
              using overwrite_block_with_append[of ?pre ?rest ?ca] lt fits by simp
            have uc': "uninitialized_copy_n E (?bb, length xs) (length ys - length xs) (?ba, length xs) ?st1 =
               (if \<exists>v\<in>set ?rest. copy_ctor_throws E v then Threw elem_exn ?st1
                else Returned () (set_block ?ba (block_with ys ?ca) st))"
              using uc ap h1 by (simp add: uninitialized_copy_n_def set_block_same)
            show ?thesis
              using cs fits c0 sa sb cl' lt all md uc' st1
                    set_block_in_place[OF va da, where ys = ys]
              by (simp add: std_copy_def GetAddress_def)
          qed
        qed
      qed
    qed
  qed
qed

lemma owns_preserved:
  assumes "owns st w ys"
    and "Capacity w \<noteq> 0 \<Longrightarrow> heap st' (m_buffer (m_data w)) = heap st (m_buffer (m_data w))"
  shows "owns st' w ys"
  using assms by (auto simp: owns_def)

lemma owns_two_vectors:
  assumes "xs \<noteq> []" "ys \<noteq> []"
  shows "owns (two_vectors xs ys) (vector_at 1 xs (length xs)) xs"
    and "owns (two_vectors xs ys) (vector_at 2 ys (length ys)) ys"
  using assms by (simp_all add: owns_def two_vectors_def vector_at_def Capacity_def block_with_def)

lemma store_inv_two_vectors:
  assumes "xs \<noteq> []" "ys \<noteq> []"
  shows "store_inv (two_vectors xs ys)"
  unfolding store_inv_def
proof (intro conjI allI impI)
  fix that w assume "vectors (two_vectors xs ys) that = Some w"
  then have "w = vector_at 1 xs (length xs) \<or> w = vector_at 2 ys (length ys)"
    by (auto simp: two_vectors_def split: if_splits)
  with owns_two_vectors[OF assms] show "vector_inv (two_vectors xs ys) w"
    by (auto simp: owns_vector_inv)
qed (auto simp: two_vectors_def vector_at_def split: if_splits)

text \<open>
  C4: copy assignment \<^verbatim>\<open>a = b\<close> of a vector \<open>b\<close> that holds \<open>ys\<close> to another vector \<open>a\<close> that
  holds \<open>xs\<close>. When the call returns, \<open>a\<close> holds \<open>ys\<close> and has the size of \<open>b\<close>, and \<open>b\<close> is
  as before; if the capacity of \<open>a\<close> suffices, \<open>a\<close> keeps its block and capacity. The call
  returns exactly when no operation it runs fails: with \<open>b\<close> larger than the capacity of
  \<open>a\<close> these are the allocation of the copy and the copy constructions of all of \<open>ys\<close>;
  otherwise the copy assignments of the overlapping prefix and the copy constructions of
  the rest of \<open>ys\<close>. When \<open>b\<close> is larger than the capacity of \<open>a\<close> and the call does not
  return, a failure reaches the caller, and every vector and every block are as before the
  call. The elements of \<open>b\<close> exist, so their byte count does not wrap around; the model asks
  for that where the copy is allocated.
\<close>

theorem copy_assignment:
  assumes inv: "store_inv st" and va: "vectors st a = Some va" and vb: "vectors st b = Some vb"
    and ab: "a \<noteq> b" and oa: "owns st va xs" and ob: "owns st vb ys"
    and ft: "Capacity va < length ys \<longrightarrow> bytes_fit E (length ys)"
  shows "(copy_assign E a b st = Returned () st' \<longrightarrow>
           (\<exists>va'. vectors st' a = Some va' \<and> Size va' = Size vb \<and> owns st' va' ys \<and>
                  (length ys \<le> Capacity va \<longrightarrow> m_data va' = m_data va)) \<and>
           vectors st' b = Some vb \<and> owns st' vb ys) \<and>
         (returned (copy_assign E a b st) \<longleftrightarrow>
            (if Capacity va < length ys
             then \<not> alloc_fails E (length ys) \<and> (\<forall>y\<in>set ys. \<not> copy_ctor_throws E y)
             else (\<forall>y\<in>set (take (length xs) ys). \<not> copy_assign_throws E y) \<and>
                  (\<forall>y\<in>set (drop (length xs) ys). \<not> copy_ctor_throws E y))) \<and>
         (Capacity va < length ys \<and> \<not> returned (copy_assign E a b st) \<longrightarrow>
            (\<exists>e st1. copy_assign E a b st = Threw e st1 \<and>
                      vectors st1 = vectors st \<and> heap st1 = heap st))"
proof -
  let ?ba = "m_buffer (m_data va)" and ?ca = "Capacity va"
  let ?bb = "m_buffer (m_data vb)" and ?cb = "Capacity vb"
  let ?nb = "next_block st"
  let ?pre = "take (length xs) ys"
  let ?ok = "takeWhile (\<lambda>y. \<not> copy_assign_throws E y) ?pre"
  note c = copy_assign_closed[OF inv va vb ab oa ob ft]
  from oa have sa: "m_size va = length xs" and la: "length xs \<le> ?ca" using owns_size by blast+
  from ob have sb: "m_size vb = length ys" and lb: "length ys \<le> ?cb" using owns_size by blast+
  have ban: "?ba \<noteq> ?nb" using inv oa by (rule owns_buffer_fresh)
  have bbn: "?bb \<noteq> ?nb" using inv ob by (rule owns_buffer_fresh)
  have nb0: "?nb \<noteq> 0" using inv store_inv_fresh by blast
  have fresh: "heap st ?nb = None" using store_invD(3)[OF inv, of ?nb] by simp
  have bb: "?bb \<noteq> 0 \<and> ?bb \<noteq> ?ba \<and> ?bb \<noteq> ?nb" if "?cb \<noteq> 0"
  proof -
    from ob that have "?bb \<noteq> 0" using owns_block by blast
    moreover from this have "?bb \<noteq> ?ba" using store_invD(5)[OF inv vb va] ab by blast
    ultimately show ?thesis using bbn by simp
  qed
  have lpre: "length ?pre = min (length xs) (length ys)" by (simp add: min.commute)
  have thr: "length ?ok < min (length xs) (length ys) \<longleftrightarrow> (\<exists>y\<in>set ?pre. copy_assign_throws E y)"
    using takeWhile_length_less[of "\<lambda>y. \<not> copy_assign_throws E y" ?pre] lpre by auto
  have ob_realloc: "owns (reallocated a ?ba ys (length ys) st) vb ys"
    using ob by (rule owns_preserved) (use bb in \<open>auto simp: heap_reallocated\<close>)
  have ob_in_place: "owns (in_place a ?ba zs ?ca st) vb ys" for zs
    using ob by (rule owns_preserved) (use bb in auto)
  have p1: "(\<exists>va'. vectors st' a = Some va' \<and> Size va' = Size vb \<and> owns st' va' ys \<and>
                  (length ys \<le> ?ca \<longrightarrow> m_data va' = m_data va)) \<and>
           vectors st' b = Some vb \<and> owns st' vb ys"
    if r: "copy_assign E a b st = Returned () st'"
  proof (cases "?ca < length ys")
    case True
    with r c have st': "st' = reallocated a ?ba ys (length ys) st"
      by (auto split: if_splits)
    have "owns st' (vector_at ?nb ys (length ys)) ys"
      unfolding st' using ban nb0 True by (intro owns_reallocated) auto
    then show ?thesis
      using True vb ab ob_realloc sb unfolding st' by (auto simp: Size_def vector_at_def)
  next
    case False
    show ?thesis
    proof (cases "?ca = 0")
      case True
      with False r c have st': "st' = st" and e: "ys = []" by (auto split: if_splits)
      from oa True have "xs = []" using owns_empty by blast
      with oa e have "owns st va ys" by simp
      then show ?thesis using va vb ob sa sb e \<open>xs = []\<close> unfolding st' by (simp add: Size_def)
    next
      case c0: False
      with oa have b0: "?ba \<noteq> 0" using owns_block by blast
      from False c0 r c have st': "st' = in_place a ?ba ys ?ca st"
        by (auto split: if_splits)
      have "owns st' (vector_at ?ba ys ?ca) ys"
        unfolding st' using b0 c0 False by (intro owns_in_place) simp_all
      moreover have "m_data (vector_at ?ba ys ?ca) = m_data va"
        by (simp add: vector_at_def Capacity_def)
      ultimately show ?thesis
        using vb ab ob_in_place sb unfolding st' by (auto simp: Size_def vector_at_def)
    qed
  qed
  have p2: "returned (copy_assign E a b st) \<longleftrightarrow>
            (if ?ca < length ys
             then \<not> alloc_fails E (length ys) \<and> (\<forall>y\<in>set ys. \<not> copy_ctor_throws E y)
             else (\<forall>y\<in>set ?pre. \<not> copy_assign_throws E y) \<and>
                  (\<forall>y\<in>set (drop (length xs) ys). \<not> copy_ctor_throws E y))"
  proof (cases "?ca < length ys")
    case True
    then show ?thesis unfolding c by auto
  next
    case False
    show ?thesis
    proof (cases "?ca = 0")
      case True
      with False have "ys = []" by simp
      then show ?thesis unfolding c using True by simp
    next
      case c0: False
      show ?thesis unfolding c using False c0 thr by auto
    qed
  qed
  have p3: "\<exists>e st1. copy_assign E a b st = Threw e st1 \<and> vectors st1 = vectors st \<and> heap st1 = heap st"
    if t: "?ca < length ys \<and> \<not> returned (copy_assign E a b st)"
  proof -
    let ?st1 = "release ?nb (new_block (length ys) st)"
    have "vectors ?st1 = vectors st \<and> heap ?st1 = heap st"
      using fresh nb0 by (auto simp: fun_eq_iff)
    moreover from t c have "copy_assign E a b st = Threw bad_alloc st \<or>
                            copy_assign E a b st = Threw elem_exn ?st1"
      by (auto split: if_splits)
    ultimately show ?thesis by blast
  qed
  from p1 p2 p3 show ?thesis by blast
qed

theorem copy_assignment_witness:
  "returned (copy_assign int_env 10 20 (two_vectors [1] [2, 3])) \<and>
   elements_after (copy_assign int_env 10 20 (two_vectors [1] [2, 3])) 10 = Some [Live 2, Live 3] \<and>
   elements_after (copy_assign int_env 10 20 (two_vectors [1] [2, 3])) 20 = Some [Live 2, Live 3] \<and>
   returned (copy_assign int_env 10 20 (two_vectors [1, 2, 3] [7])) \<and>
   vector_after (copy_assign int_env 10 20 (two_vectors [1, 2, 3] [7])) 10 = Some (vector_at 1 [7 :: int] 3) \<and>
   block_after (copy_assign int_env 10 20 (two_vectors [1, 2, 3] [7])) 1 = Some [Live 7, Raw, Raw] \<and>
   thrown (copy_assign (copy_throws_on 3) 10 20 (two_vectors [1] [2, 3])) \<noteq> None \<and>
   vector_after (copy_assign (copy_throws_on 3) 10 20 (two_vectors [1] [2, 3])) 10
     = Some (vector_at 1 [1 :: int] 1) \<and>
   block_after (copy_assign (copy_throws_on 3) 10 20 (two_vectors [1] [2, 3])) 1 = Some [Live 1]"
proof -
  let ?s = "two_vectors [1 :: int] [2, 3]" and ?t = "two_vectors [1, 2, 3 :: int] [7]"
  let ?a1 = "vector_at 1 [1 :: int] (length [1 :: int])"
  let ?b1 = "vector_at 2 [2, 3 :: int] (length [2, 3 :: int])"
  let ?a2 = "vector_at 1 [1, 2, 3 :: int] (length [1, 2, 3 :: int])"
  let ?b2 = "vector_at 2 [7 :: int] (length [7 :: int])"
  have i: "store_inv ?s" "store_inv ?t" by (rule store_inv_two_vectors; simp)+
  have v: "vectors ?s 10 = Some ?a1" "vectors ?s 20 = Some ?b1"
    "vectors ?t 10 = Some ?a2" "vectors ?t 20 = Some ?b2"
    by (simp_all add: two_vectors_def)
  have o: "owns ?s ?a1 [1]" "owns ?s ?b1 [2, 3]" "owns ?t ?a2 [1, 2, 3]" "owns ?t ?b2 [7]"
    by (rule owns_two_vectors; simp)+
  have n: "(10 :: nat) \<noteq> 20" by simp
  have f: "Capacity ?a1 < length [2, 3 :: int] \<longrightarrow> bytes_fit int_env (length [2, 3 :: int])"
    "Capacity ?a2 < length [7 :: int] \<longrightarrow> bytes_fit int_env (length [7 :: int])"
    "Capacity ?a1 < length [2, 3 :: int] \<longrightarrow> bytes_fit (copy_throws_on 3) (length [2, 3 :: int])"
    by (simp_all add: bytes_fit_def copy_throws_on_def int_env_def)
  note t1 = copy_assignment[OF i(1) v(1,2) n o(1,2) f(1)]
  note t2 = copy_assignment[OF i(2) v(3,4) n o(3,4) f(2)]
  note t3 = copy_assignment[OF i(1) v(1,2) n o(1,2) f(3)]
  have r1: "returned (copy_assign int_env 10 20 ?s)"
    using t1 by (simp add: int_env_def)
  then obtain s1 where s1: "copy_assign int_env 10 20 ?s = Returned () s1"
    by (cases "copy_assign int_env 10 20 ?s") auto
  with t1[of s1] obtain va' where a1: "vectors s1 10 = Some va'" "owns s1 va' [2, 3]"
    "vectors s1 20 = Some ?b1" "owns s1 ?b1 [2, 3]"
    by blast
  have e1: "elements s1 va' = [Live 2, Live 3]" "elements s1 ?b1 = [Live 2, Live 3]"
    using owns_elements[OF a1(2)] owns_elements[OF a1(4)] by simp_all
  have r2: "returned (copy_assign int_env 10 20 ?t)"
    using t2 by (simp add: int_env_def)
  then obtain s2 where s2: "copy_assign int_env 10 20 ?t = Returned () s2"
    by (cases "copy_assign int_env 10 20 ?t") auto
  with t2[of s2] obtain vb' where a2: "vectors s2 10 = Some vb'" "Size vb' = Size ?b2"
    "owns s2 vb' [7]" "m_data vb' = m_data ?a2"
    by auto
  have vb': "vb' = vector_at 1 [7 :: int] 3"
    using a2(2,4) by (cases vb') (simp add: vector_at_def Size_def)
  have h2: "heap s2 1 = Some [Live 7, Raw, Raw]"
    using a2(3) unfolding vb' by (simp add: owns_def vector_at_def Capacity_def numeral_eq_Suc)
  have "\<not> returned (copy_assign (copy_throws_on 3) 10 20 ?s)"
    using t3 by (simp add: copy_throws_on_def int_env_def)
  then have "Capacity ?a1 < length [2, 3 :: int] \<and> \<not> returned (copy_assign (copy_throws_on 3) 10 20 ?s)"
    by simp
  with t3[THEN conjunct2, THEN conjunct2] obtain e s3 where s3: "copy_assign (copy_throws_on 3) 10 20 ?s = Threw e s3"
    "vectors s3 = vectors ?s" "heap s3 = heap ?s"
    by blast
  have h3: "vectors ?s 10 = Some (vector_at 1 [1 :: int] 1)" "heap ?s 1 = Some [Live 1]"
    by (simp_all add: two_vectors_def block_with_def)
  show ?thesis
    using r1 s1 a1(1,3) e1 r2 s2 a2(1) vb' h2 s3 h3 by simp
qed

section \<open>Reserve\<close>

text \<open>
  C7: \<^verbatim>\<open>Reserve(n)\<close> with \<open>n\<close> at most the capacity returns and leaves the whole store as it
  was. With \<open>n\<close> above the capacity, when the byte count \<^verbatim>\<open>n * sizeof(T)\<close> does not wrap
  around, the allocation succeeds and no element throws while it is transferred, it
  returns, the capacity is exactly \<open>n\<close>, and the size and the values are the same.
\<close>

theorem Reserve_capacity:
  assumes "store_inv st" and "vectors st this = Some v" and "owns st v xs"
  shows "(n \<le> Capacity v \<longrightarrow> Reserve E this n st = Returned () st) \<and>
         (Capacity v < n \<and> bytes_fit E n \<and> \<not> alloc_fails E n \<and>
          (\<forall>x\<in>set xs. \<not> transfer_throws E x) \<longrightarrow>
            (\<exists>st' v'. Reserve E this n st = Returned () st' \<and> vectors st' this = Some v' \<and>
                      Capacity v' = n \<and> Size v' = Size v \<and> owns st' v' xs))"
proof (intro conjI impI)
  show "Reserve E this n st = Returned () st" if "n \<le> Capacity v"
    using that assms(2) by (simp add: Reserve_def)
next
  assume a: "Capacity v < n \<and> bytes_fit E n \<and> \<not> alloc_fails E n \<and>
             (\<forall>x\<in>set xs. \<not> transfer_throws E x)"
  let ?b = "m_buffer (m_data v)"
  from a have n: "Capacity v < n" and ft: "bytes_fit E n" by simp_all
  from a Reserve_closed[OF assms n ft]
  have r: "Reserve E this n st = Returned () (reallocated this ?b xs n st)" by auto
  have b: "?b \<noteq> next_block st"
    using assms(1,3) by (rule owns_buffer_fresh)
  have "owns (reallocated this ?b xs n st) (vector_at (next_block st) xs n) xs"
    using a b assms(1,3) owns_size[of st v xs] store_inv_fresh[of st]
    by (intro owns_reallocated) auto
  with r assms(3) show "\<exists>st' v'. Reserve E this n st = Returned () st' \<and> vectors st' this = Some v' \<and>
                      Capacity v' = n \<and> Size v' = Size v \<and> owns st' v' xs"
    by (auto simp: owns_def Size_def)
qed

theorem Reserve_capacity_witness:
  "Reserve int_env 10 2 (one_vector 10 1 [1, 2, 3 :: int] 3) = Returned () (one_vector 10 1 [1, 2, 3] 3) \<and>
   returned (Reserve int_env 10 5 (one_vector 10 1 [1, 2, 3] 3)) \<and>
   map_option Capacity (vector_after (Reserve int_env 10 5 (one_vector 10 1 [1, 2, 3] 3)) 10) = Some 5 \<and>
   map_option Size (vector_after (Reserve int_env 10 5 (one_vector 10 1 [1, 2, 3] 3)) 10) = Some 3"
proof -
  let ?st = "one_vector 10 1 [1, 2, 3 :: int] 3"
  have 1: "store_inv ?st" by (rule store_inv_one_vector) simp_all
  have 2: "vectors ?st 10 = Some (vector_at 1 [1, 2, 3] 3)" by (simp add: one_vector_def)
  have 3: "owns ?st (vector_at 1 [1, 2, 3 :: int] 3) [1, 2, 3]" by (rule owns_one_vector) simp_all
  have 4: "\<not> alloc_fails int_env 5 \<and> (\<forall>x\<in>set [1, 2, 3 :: int]. \<not> transfer_throws int_env x)"
    by (simp add: int_env_def transfer_throws_def)
  have 5: "bytes_fit int_env 5" by simp
  from Reserve_capacity[OF 1 2 3, of 2 int_env] Reserve_capacity[OF 1 2 3, of 5 int_env] 4 5
  show ?thesis by auto
qed

text \<open>
  C7 does not hold for every \<open>n\<close>: for \<open>n = 2 ^ 62 + 1\<close> elements of 4 bytes the byte count
  wraps around to 4, and the new block has room for one element while \<^verbatim>\<open>capacity_\<close> becomes
  \<open>n\<close>. With the three elements \<open>[1, 2, 3]\<close> the transfer writes past the end of the new
  block: the call has no defined behaviour. With the one element \<open>[7]\<close> the call returns,
  and the vector reports the capacity \<open>2 ^ 62 + 1\<close> over a block of one slot.
\<close>

theorem Reserve_wraps:
  "Reserve int_env 10 (2 ^ 62 + 1) (one_vector 10 1 [1, 2, 3] 3) = Undefined \<and>
   returned (Reserve int_env 10 (2 ^ 62 + 1) (one_vector 10 1 [7] 1)) \<and>
   map_option Capacity (vector_after (Reserve int_env 10 (2 ^ 62 + 1) (one_vector 10 1 [7] 1)) 10)
     = Some (2 ^ 62 + 1) \<and>
   block_after (Reserve int_env 10 (2 ^ 62 + 1) (one_vector 10 1 [7] 1)) 2 = Some [Live 7]"
proof -
  have w: "size_t_mul (2 ^ 62 + 1) (sizeof_T int_env) div sizeof_T int_env = 1"
    by (simp add: size_t_mul_def int_env_def)
  have 1: "Reserve int_env 10 (2 ^ 62 + 1) (one_vector 10 1 [1, 2, 3] 3) = Undefined"
    using w by (rule Reserve_no_room) simp
  have 2: "Reserve int_env 10 (2 ^ 62 + 1) (one_vector 10 1 [7] 1) =
      Returned () \<lparr>heap = (\<lambda>a. None)(2 \<mapsto> [Live 7]), next_block = 3,
         vectors = (\<lambda>a. None)(10 \<mapsto> \<lparr>m_data = \<lparr>m_buffer = 2, m_capacity = 2 ^ 62 + 1\<rparr>, m_size = 1\<rparr>)\<rparr>"
    using w by (rule Reserve_one_slot) simp
  show ?thesis unfolding 1 2 by (simp add: Capacity_def)
qed

section \<open>Resize\<close>




section \<open>Emplace\<close>

text \<open>
  \<^verbatim>\<open>Emplace\<close> at the position \<^verbatim>\<open>begin() + k\<close>, \<open>k\<close> at most the size, with arguments that
  construct the value \<open>x\<close>, when none of the operations that the call runs fails: with room
  in the block and \<open>k\<close> below the size these are the move construction of the last element,
  the move assignments of the elements from \<open>k\<close> on but the last, and the move assignment of
  \<open>x\<close>; with a full block, the allocation and the transfer of the elements. Then the call
  returns an iterator to slot \<open>k\<close> of the vector's block, that slot holds \<open>x\<close>, the size is
  one more, and the values are the old ones in their order with \<open>x\<close> between the first \<open>k\<close>
  and the rest.
\<close>

lemma Emplace_inserts:
  assumes "store_inv st" and "vectors st this = Some v" and "owns st v xs" and "k \<le> Size v"
    and "Size v < Capacity v \<and> k < Size v \<longrightarrow>
           \<not> move_ctor_throws E (last xs) \<and>
           (\<forall>y\<in>set (butlast (drop k xs)). \<not> move_assign_throws E y) \<and>
           \<not> move_assign_throws E x"
    and "Size v = Capacity v \<longrightarrow>
           bytes_fit E (max 1 (2 * Capacity v)) \<and> \<not> alloc_fails E (max 1 (2 * Capacity v)) \<and>
           (\<forall>y\<in>set xs. \<not> transfer_throws E y)"
  shows "\<exists>st' v'. Emplace E this (ptr_add (Vector_begin v) k) (Some x) st =
                     Returned (ptr_add (Vector_begin v') k) st' \<and>
                  vectors st' this = Some v' \<and> Size v' = Size v + 1 \<and>
                  owns st' v' (take k xs @ x # drop k xs) \<and>
                  slot_at st' (ptr_add (Vector_begin v') k) = Some (Live x)"
proof -
  let ?b = "m_buffer (m_data v)" and ?c = "Capacity v" and ?ys = "take k xs @ x # drop k xs"
  let ?sz = "if ?c = 0 then 1 else ?c * 2"
  from assms(3) have sz: "Size v = length xs" and le: "length xs \<le> ?c"
    and msz: "m_size v = length xs"
    using owns_size[of st v xs] by (simp_all add: Size_def)
  have k: "k \<le> length xs" using assms(4) sz by simp
  have ly: "length ?ys = Suc (length xs)" using k by simp
  have mx: "max 1 (2 * ?c) = ?sz" by simp
  have pos: "ptr_add (Vector_begin v) k = (?b, k)"
    by (simp add: Vector_begin_def GetAddress_def)
  have nth: "?ys ! k = x" using k by (simp add: nth_append)
  show ?thesis
  proof (cases "length xs < ?c")
    case True
    then have c0: "?c \<noteq> 0" by simp
    with assms(3) have b0: "?b \<noteq> 0" using owns_block by blast
    let ?st' = "in_place this ?b ?ys ?c st" and ?v' = "vector_at ?b ?ys ?c"
    have nt: "k < length xs \<longrightarrow> \<not> move_ctor_throws E (last xs) \<and>
             (\<forall>y\<in>set (butlast (drop k xs)). \<not> move_assign_throws E y) \<and>
             (\<forall>x'. Some x = Some x' \<longrightarrow> \<not> move_assign_throws E x')"
      using assms(5) True sz by simp
    have "Emplace E this (?b, k) (Some x) st = Emplace_in_place E this v (?b, k) (Some x) st"
      using assms(2) msz k True by (simp add: Emplace_def)
    also have "\<dots> = Returned (?b, k) ?st'"
      using Emplace_in_place_closed[OF assms(2,3) k True nt] by simp
    finally have cl: "Emplace E this (?b, k) (Some x) st = Returned (?b, k) ?st'" .
    have o: "owns ?st' ?v' ?ys" using b0 c0 True ly by (intro owns_in_place) simp_all
    have s: "slot_at ?st' (?b, k) = Some (Live x)"
      using k True ly nth by (simp add: slot_at_block block_with_live)
    show ?thesis
      using cl True o s sz ly pos
      by (intro exI[of _ ?st'] exI[of _ ?v'])
         (simp add: Vector_begin_def GetAddress_def)
  next
    case False
    with le sz have full: "Size v = ?c" and fl: "length xs = ?c" by simp_all
    with assms(6) mx have af: "\<not> alloc_fails E ?sz" and ft: "bytes_fit E ?sz"
      and nt: "\<forall>y\<in>set xs. \<not> transfer_throws E y" by simp_all
    have bn: "?b \<noteq> next_block st" using assms(1,3) by (rule owns_buffer_fresh)
    have nb0: "next_block st \<noteq> 0" using assms(1) store_inv_fresh by blast
    have lsz: "length ?ys \<le> ?sz" using ly full sz by simp
    let ?st' = "reallocated this ?b ?ys ?sz st" and ?v' = "vector_at (next_block st) ?ys ?sz"
    have "Emplace E this (?b, k) (Some x) st = Emplace_realloc E this v (?b, k) (Some x) st"
      using assms(2) msz k False by (simp add: Emplace_def)
    also have "\<dots> = Returned (next_block st, k) ?st'"
      using Emplace_realloc_closed[OF assms(1,2,3) k fl nt ft, of "Some x"] af by simp
    finally have cl: "Emplace E this (?b, k) (Some x) st = Returned (next_block st, k) ?st'" .
    have o: "owns ?st' ?v' ?ys" using bn nb0 lsz by (intro owns_reallocated) simp_all
    have "heap ?st' (next_block st) = Some (block_with ?ys ?sz)"
      using bn by (simp add: heap_reallocated)
    then have s: "slot_at ?st' (next_block st, k) = Some (Live x)"
      using k lsz ly nth by (simp add: slot_at_block block_with_live)
    show ?thesis
      using cl False o s sz ly pos
      by (intro exI[of _ ?st'] exI[of _ ?v'])
         (simp add: Vector_begin_def GetAddress_def)
  qed
qed

text \<open>The example of the specification: 99 inserted at \<^verbatim>\<open>begin() + 1\<close> of \<open>[1, 2, 3]\<close>.\<close>

lemma Emplace_inserts_example:
  "result_of (Emplace int_env 10 (1, 1) (Some 99) (one_vector 10 1 [1, 2, 3] 4)) = Some (1, 1) \<and>
   elements_after (Emplace int_env 10 (1, 1) (Some 99) (one_vector 10 1 [1, 2, 3] 4)) 10
     = Some [Live 1, Live 99, Live 2, Live 3] \<and>
   map_option Size (vector_after (Emplace int_env 10 (1, 1) (Some 99) (one_vector 10 1 [1, 2, 3] 4)) 10)
     = Some 4"
proof -
  let ?s = "one_vector 10 1 [1, 2, 3 :: int] 4" and ?v = "vector_at 1 [1, 2, 3 :: int] 4"
  have i: "store_inv ?s" by (rule store_inv_one_vector; simp)
  have v: "vectors ?s 10 = Some ?v" by (simp add: one_vector_def)
  have o: "owns ?s ?v [1, 2, 3]" by (rule owns_one_vector; simp)
  have k: "1 \<le> Size ?v" by simp
  have nt: "never_throws int_env (99 :: int)" "\<forall>y\<in>set [1, 2, 3 :: int]. never_throws int_env y"
    by simp_all
  have m: "Size ?v < Capacity ?v \<and> 1 < Size ?v \<longrightarrow>
           \<not> move_ctor_throws int_env (last [1, 2, 3]) \<and>
           (\<forall>y\<in>set (butlast (drop 1 [1, 2, 3])). \<not> move_assign_throws int_env y) \<and>
           \<not> move_assign_throws int_env 99"
    by (simp add: int_env_def)
  have a: "Size ?v = Capacity ?v \<longrightarrow>
           bytes_fit int_env (max 1 (2 * Capacity ?v)) \<and>
           \<not> alloc_fails int_env (max 1 (2 * Capacity ?v)) \<and>
           (\<forall>y\<in>set [1, 2, 3 :: int]. \<not> transfer_throws int_env y)"
    by simp
  from Emplace_inserts[OF i v o k m a] obtain st' v' where
    r: "Emplace int_env 10 (ptr_add (Vector_begin ?v) 1) (Some 99) ?s =
          Returned (ptr_add (Vector_begin v') 1) st'"
    and vs: "vectors st' 10 = Some v'" and sz: "Size v' = Size ?v + 1"
    and ow: "owns st' v' (take 1 [1, 2, 3] @ 99 # drop 1 [1, 2, 3])"
    and sl: "slot_at st' (ptr_add (Vector_begin v') 1) = Some (Live 99)"
    by blast
  have p: "ptr_add (Vector_begin ?v) 1 = (1, 1)" by (simp add: Vector_begin_def GetAddress_def)
  have el: "elements st' v' = [Live 1, Live 99, Live 2, Live 3]"
    using owns_elements[OF ow] by simp
  have q: "ptr_add (Vector_begin v') 1 = (1, 1)"
  proof -
    have "Emplace int_env 10 (1, 1) (Some 99) ?s =
          Returned (1, 1) (in_place 10 1 (take 1 [1, 2, 3] @ 99 # drop 1 [1, 2, 3]) 4 ?s)"
      using Emplace_closed[OF i v o, of 1 int_env "Some 99"] nt by simp
    with r p show ?thesis by simp
  qed
  show ?thesis using r vs sz el unfolding p q by simp
qed

text \<open>
  C2 on the code: a call of \<^verbatim>\<open>Emplace\<close> that returns has not always inserted. The vector
  holds \<open>[1, 2]\<close> at capacity 2; the copy constructor of the element type throws on the value
  1, respectively 2; \<open>9\<close> is emplaced at \<^verbatim>\<open>begin() + 1\<close>. The \<^verbatim>\<open>catch (...)\<close> blocks of the
  reallocating path do not rethrow, so both calls return the iterator \<^verbatim>\<open>begin() + 1\<close> of
  the new block, with size 3. After the failure in the prefix that iterator points to a raw
  slot and the vector's three slots are raw, raw, 2; after the failure in the suffix they
  are raw, 9, raw. In neither case are the values \<open>[1, 9, 2]\<close>.
\<close>

theorem Emplace_returns_without_element:
  "result_of (Emplace (copy_throws_on 1) 10 (1, 1) (Some 9) (one_vector 10 1 [1, 2] 2)) = Some (2, 1) \<and>
   block_after (Emplace (copy_throws_on 1) 10 (1, 1) (Some 9) (one_vector 10 1 [1, 2] 2)) 2
     = Some [Raw, Raw, Live 2, Raw] \<and>
   map_option Size (vector_after (Emplace (copy_throws_on 1) 10 (1, 1) (Some 9) (one_vector 10 1 [1, 2] 2)) 10)
     = Some 3 \<and>
   elements_after (Emplace (copy_throws_on 1) 10 (1, 1) (Some 9) (one_vector 10 1 [1, 2] 2)) 10
     = Some [Raw, Raw, Live 2] \<and>
   result_of (Emplace (copy_throws_on 2) 10 (1, 1) (Some 9) (one_vector 10 1 [1, 2] 2)) = Some (2, 1) \<and>
   map_option Size (vector_after (Emplace (copy_throws_on 2) 10 (1, 1) (Some 9) (one_vector 10 1 [1, 2] 2)) 10)
     = Some 3 \<and>
   elements_after (Emplace (copy_throws_on 2) 10 (1, 1) (Some 9) (one_vector 10 1 [1, 2] 2)) 10
     = Some [Raw, Live 9, Raw]"
  by code_simp

theorem Emplace_returns_without_element_witness:
  "returned (Emplace (copy_throws_on 1) 10 (1, 1) (Some 9) (one_vector 10 1 [1, 2] 2)) \<and>
   elements_after (Emplace (copy_throws_on 1) 10 (1, 1) (Some 9) (one_vector 10 1 [1, 2] 2)) 10
     \<noteq> Some [Live 1, Live 9, Live 2] \<and>
   returned (Emplace (copy_throws_on 2) 10 (1, 1) (Some 9) (one_vector 10 1 [1, 2] 2)) \<and>
   elements_after (Emplace (copy_throws_on 2) 10 (1, 1) (Some 9) (one_vector 10 1 [1, 2] 2)) 10
     \<noteq> Some [Live 1, Live 9, Live 2]"
proof -
  have r: "returned m" if "result_of m = Some p" for m :: "(ptr, int store) outcome" and p
    using that by (cases m) simp_all
  from Emplace_returns_without_element show ?thesis by (simp add: r)
qed

section \<open>Erase\<close>

text \<open>
  C9: \<^verbatim>\<open>Erase\<close> at the position \<^verbatim>\<open>begin() + k\<close>, \<open>k\<close> below the size, when no move assignment
  of an element after the position throws: it returns that position; the vector keeps its
  block and its capacity, and no block is allocated; the size is one less; the values
  before the position and those after it follow each other in their order, and the slot
  that was the last is raw.
\<close>

theorem Erase_removes:
  assumes "vectors st this = Some v" and "owns st v xs" and "k < Size v"
    and "\<forall>y\<in>set (drop (Suc k) xs). \<not> move_assign_throws E y"
  shows "\<exists>st' v'. Erase E this (ptr_add (Vector_begin v) k) st =
                     Returned (ptr_add (Vector_begin v) k) st' \<and>
                  vectors st' this = Some v' \<and> Size v' = Size v - 1 \<and>
                  Capacity v' = Capacity v \<and> m_buffer (m_data v') = m_buffer (m_data v) \<and>
                  next_block st' = next_block st \<and>
                  owns st' v' (take k xs @ drop (Suc k) xs)"
proof -
  let ?b = "m_buffer (m_data v)" and ?c = "Capacity v" and ?ys = "take k xs @ drop (Suc k) xs"
  from assms(2) have sz: "Size v = length xs" and le: "length xs \<le> ?c"
    using owns_size[of st v xs] by (simp_all add: Size_def)
  have k: "k < length xs" using assms(3) sz by simp
  have ly: "length ?ys = length xs - 1" using k by simp
  from k le have c0: "?c \<noteq> 0" by simp
  with assms(2) have b0: "?b \<noteq> 0" using owns_block by blast
  let ?st' = "in_place this ?b ?ys ?c st" and ?v' = "vector_at ?b ?ys ?c"
  have o: "owns ?st' ?v' ?ys" using b0 c0 le ly by (intro owns_in_place) simp_all
  have "Erase E this (?b, k) st = Returned (?b, k) ?st'"
    using assms(1,2) k assms(4) by (rule Erase_closed)
  then show ?thesis
    using o sz ly
    by (intro exI[of _ ?st'] exI[of _ ?v']) (simp add: Vector_begin_def GetAddress_def)
qed

theorem Erase_removes_witness:
  "result_of (Erase int_env 10 (1, 2) (one_vector 10 1 [1, 99, 2, 3] 4)) = Some (1, 2) \<and>
   elements_after (Erase int_env 10 (1, 2) (one_vector 10 1 [1, 99, 2, 3] 4)) 10
     = Some [Live 1, Live 99, Live 3] \<and>
   map_option Size (vector_after (Erase int_env 10 (1, 2) (one_vector 10 1 [1, 99, 2, 3] 4)) 10) = Some 3 \<and>
   map_option Capacity (vector_after (Erase int_env 10 (1, 2) (one_vector 10 1 [1, 99, 2, 3] 4)) 10) = Some 4"
proof -
  let ?s = "one_vector 10 1 [1, 99, 2, 3 :: int] 4" and ?v = "vector_at 1 [1, 99, 2, 3 :: int] 4"
  have v: "vectors ?s 10 = Some ?v" by (simp add: one_vector_def)
  have o: "owns ?s ?v [1, 99, 2, 3]" by (rule owns_one_vector; simp)
  have k: "2 < Size ?v" by simp
  have nt: "\<forall>y\<in>set (drop (Suc 2) [1, 99, 2, 3 :: int]). \<not> move_assign_throws int_env y"
    by (simp add: int_env_def)
  from Erase_removes[OF v o k nt] obtain st' v' where
    r: "Erase int_env 10 (ptr_add (Vector_begin ?v) 2) ?s = Returned (ptr_add (Vector_begin ?v) 2) st'"
    and vs: "vectors st' 10 = Some v'" and sz: "Size v' = Size ?v - 1"
    and cp: "Capacity v' = Capacity ?v"
    and ow: "owns st' v' (take 2 [1, 99, 2, 3] @ drop (Suc 2) [1, 99, 2, 3])"
    by blast
  have p: "ptr_add (Vector_begin ?v) 2 = (1, 2)" by (simp add: Vector_begin_def GetAddress_def)
  have el: "elements st' v' = [Live 1, Live 99, Live 3]"
    using owns_elements[OF ow] by simp
  show ?thesis using r vs sz cp el unfolding p by simp
qed

section \<open>Growth of the capacity\<close>

text \<open>
  C6. When \<^verbatim>\<open>Emplace\<close> finds the size equal to the capacity and returns, the capacity is
  \<open>max 1 (2 * capacity)\<close>. When \<^verbatim>\<open>PushBack\<close> of the values \<open>xs\<close>, one after the other, into an
  empty vector of capacity 0 returns, the size is the number of pushes and the capacity is
  at most every power of two that is at least the number of pushes (so at most the smallest
  such); after one push it is 1. And these calls do return, and the vector holds \<open>xs\<close>, when
  no allocation fails, no element operation throws on the values, and the byte count of
  twice as many elements as are pushed does not wrap around (which only excludes vectors
  that an address space of \<open>2 ^ 64\<close> bytes cannot hold).
\<close>

theorem capacity_doubles:
  assumes "vectors st this = Some v"
  shows "(Size v = Capacity v \<and> Emplace E this pos args st = Returned p st' \<longrightarrow>
            (\<exists>v'. vectors st' this = Some v' \<and> Capacity v' = max 1 (2 * Capacity v))) \<and>
         (Size v = 0 \<and> Capacity v = 0 \<and> PushBack_all E this xs st = Returned () st1 \<longrightarrow>
            (\<exists>v1. vectors st1 this = Some v1 \<and> Size v1 = length xs \<and>
               (\<forall>k. length xs \<le> 2 ^ k \<longrightarrow> Capacity v1 \<le> 2 ^ k) \<and>
               (length xs = 1 \<longrightarrow> Capacity v1 = 1))) \<and>
         (store_inv st \<and> owns st v [] \<and> Capacity v = 0 \<and> (\<forall>x\<in>set xs. never_throws E x) \<and>
          (\<forall>n. \<not> alloc_fails E n) \<and> bytes_fit E (2 * length xs) \<longrightarrow>
            (\<exists>st'' v''. PushBack_all E this xs st = Returned () st'' \<and>
               vectors st'' this = Some v'' \<and> owns st'' v'' xs \<and>
               (\<forall>k. length xs \<le> 2 ^ k \<longrightarrow> Capacity v'' \<le> 2 ^ k) \<and>
               (length xs = 1 \<longrightarrow> Capacity v'' = 1)))"
proof -
  have bound: "(\<forall>k. n \<le> 2 ^ k \<longrightarrow> c \<le> 2 ^ k) \<and> (n = 1 \<longrightarrow> c = 1)"
    if le: "n \<le> c" and pw: "c = 0 \<or> (\<exists>j. c = 2 ^ j \<and> c < 2 * n)" for n c :: nat
  proof
    show b: "\<forall>k. n \<le> 2 ^ k \<longrightarrow> c \<le> 2 ^ k"
    proof (intro allI impI)
      fix k assume k: "n \<le> 2 ^ k"
      from pw show "c \<le> 2 ^ k"
      proof
        assume "c = 0" then show ?thesis by simp
      next
        assume "\<exists>j. c = 2 ^ j \<and> c < 2 * n"
        then obtain j where "c = 2 ^ j" "c < 2 * n" by auto
        then show ?thesis using k by (rule pow2_bound)
      qed
    qed
    show "n = 1 \<longrightarrow> c = 1"
    proof
      assume n: "n = 1"
      with b have "c \<le> 2 ^ 0" by (metis le_refl power_0)
      with le n show "c = 1" by simp
    qed
  qed
  show ?thesis
  proof (intro conjI impI)
    assume a: "Size v = Capacity v \<and> Emplace E this pos args st = Returned p st'"
    then have "Emplace_realloc E this v pos args st = Returned p st'"
      using assms by (auto simp: Emplace_def Size_def split: if_splits)
    from Emplace_realloc_Returned[OF this]
    show "\<exists>v'. vectors st' this = Some v' \<and> Capacity v' = max 1 (2 * Capacity v)"
      by (auto simp: max_def)
  next
    assume a: "Size v = 0 \<and> Capacity v = 0 \<and> PushBack_all E this xs st = Returned () st1"
    then have h: "PushBack_all E this xs st = Returned () st1" "m_size v \<le> Capacity v"
      "Capacity v = 0 \<or> (\<exists>j. Capacity v = 2 ^ j \<and> Capacity v < 2 * m_size v)"
      and s0: "m_size v = 0"
      by (simp_all add: Size_def)
    from PushBack_all_Returned[OF assms h] obtain v1 where
      r: "vectors st1 this = Some v1" "m_size v1 = m_size v + length xs"
      "m_size v1 \<le> Capacity v1"
      "Capacity v1 = 0 \<or> (\<exists>j. Capacity v1 = 2 ^ j \<and> Capacity v1 < 2 * m_size v1)"
      by blast
    from r(2) s0 have l: "m_size v1 = length xs" by simp
    from bound[of "length xs" "Capacity v1"] r(3,4) l
    have "(\<forall>k. length xs \<le> 2 ^ k \<longrightarrow> Capacity v1 \<le> 2 ^ k) \<and> (length xs = 1 \<longrightarrow> Capacity v1 = 1)"
      by simp
    with r(1) l show "\<exists>v1. vectors st1 this = Some v1 \<and> Size v1 = length xs \<and>
               (\<forall>k. length xs \<le> 2 ^ k \<longrightarrow> Capacity v1 \<le> 2 ^ k) \<and>
               (length xs = 1 \<longrightarrow> Capacity v1 = 1)"
      by (simp add: Size_def)
  next
    assume a: "store_inv st \<and> owns st v [] \<and> Capacity v = 0 \<and> (\<forall>x\<in>set xs. never_throws E x) \<and>
            (\<forall>n. \<not> alloc_fails E n) \<and> bytes_fit E (2 * length xs)"
    then have h: "store_inv st" "owns st v []" "\<forall>x\<in>set xs. never_throws E x"
      "\<forall>y\<in>set []. never_throws E y" "\<forall>n. \<not> alloc_fails E n"
      "Capacity v = 0 \<or> (\<exists>j. Capacity v = 2 ^ j \<and> Capacity v < 2 * length ([] :: 'a list))"
      "bytes_fit E (2 * length ([] @ xs))"
      by simp_all
    have "\<exists>st' v'. PushBack_all E this xs st = Returned () st' \<and> store_inv st' \<and>
             vectors st' this = Some v' \<and> owns st' v' ([] @ xs) \<and>
             (Capacity v' = 0 \<or> (\<exists>j. Capacity v' = 2 ^ j \<and> Capacity v' < 2 * length ([] @ xs)))"
      by (rule PushBack_all_capacity[OF h(1) assms h(2,3,4,5,6,7)])
    then obtain st'' v'' where r: "PushBack_all E this xs st = Returned () st''"
      "vectors st'' this = Some v''" "owns st'' v'' xs"
      "Capacity v'' = 0 \<or> (\<exists>j. Capacity v'' = 2 ^ j \<and> Capacity v'' < 2 * length xs)"
      by auto
    from r(3) have "length xs \<le> Capacity v''" using owns_size[of st'' v'' xs] by simp
    from bound[OF this r(4)] r(1,2,3)
    show "\<exists>st'' v''. PushBack_all E this xs st = Returned () st'' \<and>
               vectors st'' this = Some v'' \<and> owns st'' v'' xs \<and>
               (\<forall>k. length xs \<le> 2 ^ k \<longrightarrow> Capacity v'' \<le> 2 ^ k) \<and>
               (length xs = 1 \<longrightarrow> Capacity v'' = 1)"
      by blast
  qed
qed

theorem capacity_doubles_witness:
  "map_option Capacity (vector_after (Emplace int_env 10 (1, 1) (Some 9) (one_vector 10 1 [1, 2] 2)) 10)
     = Some 4 \<and>
   returned (PushBack_all int_env 10 [1, 2, 3, 4, 5] (empty_vector_store 10)) \<and>
   elements_after (PushBack_all int_env 10 [1, 2, 3, 4, 5] (empty_vector_store 10)) 10
     = Some [Live 1, Live 2, Live 3, Live 4, Live 5] \<and>
   (case vector_after (PushBack_all int_env 10 [1, 2, 3, 4, 5] (empty_vector_store 10)) 10 of
      Some v' \<Rightarrow> Capacity v' \<le> 8
    | None \<Rightarrow> False) \<and>
   map_option Size (vector_after (PushBack_all int_env 10 [1, 2, 3, 4, 5] (empty_vector_store 10)) 10)
     = Some 5"
proof -
  let ?s = "one_vector 10 1 [1, 2 :: int] 2" and ?v = "vector_at 1 [1, 2 :: int] 2"
  let ?e = "empty_vector_store 10 :: int store" and ?d = "\<lparr>m_data = RawMemory_default, m_size = 0\<rparr>"
  have v: "vectors ?s 10 = Some ?v" by (simp add: one_vector_def)
  have "returned (Emplace int_env 10 (1, 1) (Some 9) ?s)" by code_simp
  then obtain p st' where e: "Emplace int_env 10 (1, 1) (Some 9) ?s = Returned p st'"
    by (cases "Emplace int_env 10 (1, 1) (Some 9) ?s") auto
  have "Size ?v = Capacity ?v" by simp
  with capacity_doubles[OF v, where E = int_env and pos = "(1, 1)" and args = "Some 9"
                          and p = p and st' = st'] e
  have "\<exists>v'. vectors st' 10 = Some v' \<and> Capacity v' = max 1 (2 * Capacity ?v)" by blast
  then have 1: "map_option Capacity (vector_after (Emplace int_env 10 (1, 1) (Some 9) ?s) 10) = Some 4"
    using e by auto
  have d: "vectors ?e 10 = Some ?d" by (simp add: empty_vector_store_def)
  have h: "store_inv ?e \<and> owns ?e ?d [] \<and> Capacity ?d = 0 \<and>
           (\<forall>x\<in>set [1, 2, 3, 4, 5 :: int]. never_throws int_env x) \<and> (\<forall>n. \<not> alloc_fails int_env n) \<and>
           bytes_fit int_env (2 * length [1, 2, 3, 4, 5 :: int])"
  proof (intro conjI)
    show "store_inv ?e" by (rule store_inv_empty_vector_store)
    show "owns ?e ?d []" by (rule owns_empty_vector_store)
    show "Capacity ?d = 0" by (simp add: Capacity_def RawMemory_default_def)
    show "\<forall>x\<in>set [1, 2, 3, 4, 5 :: int]. never_throws int_env x" by simp
    show "\<forall>n. \<not> alloc_fails int_env n" by (simp add: int_env_def)
    show "bytes_fit int_env (2 * length [1, 2, 3, 4, 5 :: int])" by simp
  qed
  from capacity_doubles[OF d, where E = int_env and xs = "[1, 2, 3, 4, 5]"] h
  obtain st'' v'' where r: "PushBack_all int_env 10 [1, 2, 3, 4, 5] ?e = Returned () st''"
    "vectors st'' 10 = Some v''" "owns st'' v'' [1, 2, 3, 4, 5]"
    "\<forall>k. length [1, 2, 3, 4, 5 :: int] \<le> 2 ^ k \<longrightarrow> Capacity v'' \<le> 2 ^ k"
    by blast
  have "length [1, 2, 3, 4, 5 :: int] \<le> 2 ^ 3" by simp
  with r(4) have "Capacity v'' \<le> 2 ^ 3" by blast
  then have c: "Capacity v'' \<le> 8" by simp
  have el: "elements st'' v'' = [Live 1, Live 2, Live 3, Live 4, Live 5]"
    using owns_elements[OF r(3)] by simp
  have "Size ?d = 0 \<and> Capacity ?d = 0 \<and> PushBack_all int_env 10 [1, 2, 3, 4, 5] ?e = Returned () st''"
    using r(1) by (simp add: Size_def Capacity_def RawMemory_default_def)
  with capacity_doubles[OF d, where E = int_env and xs = "[1, 2, 3, 4, 5]" and ?st1.0 = st'']
  have "\<exists>v1. vectors st'' 10 = Some v1 \<and> Size v1 = length [1, 2, 3, 4, 5 :: int]" by blast
  with r(2) have sz: "Size v'' = 5" by simp
  from 1 r(1,2) c el sz show ?thesis by simp
qed

section \<open>The invariant\<close>

text \<open>Stores that an operation leaves behind, and why they satisfy the invariant.\<close>

lemma store_inv_keep:
  assumes inv: "store_inv st" and v: "vectors st this = Some v"
    and vs: "vectors st' = vectors st"
    and nb: "next_block st \<le> next_block st'"
    and fresh: "\<forall>a. next_block st' \<le> a \<longrightarrow> heap st' a = None"
    and null: "heap st' 0 = None"
    and frame: "\<forall>a. a < next_block st \<longrightarrow> a \<noteq> m_buffer (m_data v) \<longrightarrow>
                  map_option (map is_live) (heap st' a) = map_option (map is_live) (heap st a)"
    and shape: "map_option (map is_live) (heap st' (m_buffer (m_data v))) =
                map_option (map is_live) (heap st (m_buffer (m_data v)))"
  shows "store_inv st'"
proof (rule store_inv_update[OF inv, where this = this and vo = "Some v"])
  show "vectors st' = (vectors st)(this \<mapsto> v)" using vs v by (simp add: fun_upd_idem)
  show "\<forall>a. a < next_block st \<longrightarrow> (\<forall>va. vectors st this = Some va \<longrightarrow> a \<noteq> m_buffer (m_data va)) \<longrightarrow>
            map_option (map is_live) (heap st' a) = map_option (map is_live) (heap st a)"
    using frame v by simp
  have "vector_inv st' v = vector_inv st v" using shape by (rule vector_inv_shape)
  then have "vector_inv st' v" using store_invD(4)[OF inv v] by simp
  then show "\<forall>v'. Some v = Some v' \<longrightarrow> vector_inv st' v' \<and>
          (m_buffer (m_data v') = 0 \<or> next_block st \<le> m_buffer (m_data v') \<or>
           (\<exists>va. vectors st this = Some va \<and> m_buffer (m_data v') = m_buffer (m_data va)))"
    using v by auto
qed (fact nb fresh null)+

lemma store_inv_alloc_release:
  assumes inv: "store_inv st" and v: "vectors st this = Some v"
    and sh: "m_buffer (m_data v) \<noteq> 0 \<and>
             map_option (map is_live) (heap st (m_buffer (m_data v))) = Some (map is_live blk')"
  shows "store_inv (release (next_block st) (set_block (m_buffer (m_data v)) blk' (new_block n st)))"
proof (rule store_inv_keep[OF inv v])
  let ?b = "m_buffer (m_data v)" and ?nb = "next_block st"
  let ?st' = "release ?nb (set_block ?b blk' (new_block n st))"
  note h0 = store_invD(1)[OF inv] and nb0 = store_invD(2)[OF inv] and fr = store_invD(3)[OF inv]
  from sh have "heap st ?b \<noteq> None" by auto
  then have bn: "?b < ?nb" using fr[of ?b] by (cases "?nb \<le> ?b") auto
  show "vectors ?st' = vectors st" by simp
  show "?nb \<le> next_block ?st'" by simp
  show "\<forall>a. next_block ?st' \<le> a \<longrightarrow> heap ?st' a = None" using fr bn nb0 by auto
  show "heap ?st' 0 = None" using h0 sh nb0 by auto
  show "\<forall>a. a < ?nb \<longrightarrow> a \<noteq> ?b \<longrightarrow>
          map_option (map is_live) (heap ?st' a) = map_option (map is_live) (heap st a)"
    using nb0 by auto
  show "map_option (map is_live) (heap ?st' ?b) = map_option (map is_live) (heap st ?b)"
    using sh bn nb0 by auto
qed

lemma store_inv_new_release:
  assumes inv: "store_inv st"
  shows "store_inv (release (next_block st) (new_block n st))"
  unfolding store_inv_def
proof (intro conjI allI impI)
  let ?st' = "release (next_block st) (new_block n st)"
  note h0 = store_invD(1)[OF inv] and nb0 = store_invD(2)[OF inv] and fr = store_invD(3)[OF inv]
  have h: "heap ?st' = heap st" using fr[of "next_block st"] nb0 by (auto simp: fun_eq_iff)
  show "heap ?st' 0 = None" using h h0 by simp
  show "next_block ?st' \<noteq> 0" by simp
  show "\<And>a. next_block ?st' \<le> a \<Longrightarrow> heap ?st' a = None" using h fr by simp
  show "\<And>this w. vectors ?st' this = Some w \<Longrightarrow> vector_inv ?st' w"
    using store_invD(4)[OF inv] h by (simp add: vector_inv_def)
  show "\<And>this other w w'. vectors ?st' this = Some w \<and> vectors ?st' other = Some w' \<and> this \<noteq> other \<and>
          m_buffer (m_data w) \<noteq> 0 \<Longrightarrow> m_buffer (m_data w) \<noteq> m_buffer (m_data w')"
    using store_invD(5)[OF inv] by auto
qed

lemma store_inv_set_block:
  assumes inv: "store_inv st" and v: "vectors st this = Some v"
    and sh: "map_option (map is_live) (heap st (m_buffer (m_data v))) = Some (map is_live blk')"
  shows "store_inv (set_block (m_buffer (m_data v)) blk' st)"
proof (rule store_inv_keep[OF inv v])
  let ?b = "m_buffer (m_data v)" and ?st' = "set_block (m_buffer (m_data v)) blk' st"
  note h0 = store_invD(1)[OF inv] and fr = store_invD(3)[OF inv]
  from sh have hb: "heap st ?b \<noteq> None" by auto
  then have bn: "?b < next_block st" using fr[of ?b] by (cases "next_block st \<le> ?b") auto
  have b0: "?b \<noteq> 0"
  proof
    assume "?b = 0" with hb h0 show False by simp
  qed
  show "vectors ?st' = vectors st" by simp
  show "next_block st \<le> next_block ?st'" by simp
  show "\<forall>a. next_block ?st' \<le> a \<longrightarrow> heap ?st' a = None" using fr bn by auto
  show "heap ?st' 0 = None" using h0 b0 by auto
  show "\<forall>a. a < next_block st \<longrightarrow> a \<noteq> ?b \<longrightarrow>
          map_option (map is_live) (heap ?st' a) = map_option (map is_live) (heap st a)"
    by auto
  show "map_option (map is_live) (heap ?st' ?b) = map_option (map is_live) (heap st ?b)"
    using sh by auto
qed

lemma store_inv_put_empty:
  assumes inv: "store_inv st"
  shows "store_inv (put_vector that \<lparr>m_data = \<lparr>m_buffer = 0, m_capacity = 0\<rparr>, m_size = 0\<rparr> st)"
proof (rule store_inv_update[OF inv, where this = that
          and vo = "Some \<lparr>m_data = \<lparr>m_buffer = 0, m_capacity = 0\<rparr>, m_size = 0\<rparr>"])
  let ?st' = "put_vector that \<lparr>m_data = \<lparr>m_buffer = 0, m_capacity = 0\<rparr>, m_size = 0\<rparr> st"
  show "vectors ?st' = (vectors st)(that \<mapsto> \<lparr>m_data = \<lparr>m_buffer = 0, m_capacity = 0\<rparr>, m_size = 0\<rparr>)"
    by simp
  show "next_block st \<le> next_block ?st'" by simp
  show "\<forall>a. next_block ?st' \<le> a \<longrightarrow> heap ?st' a = None" using store_invD(3)[OF inv] by simp
  show "heap ?st' 0 = None" using store_invD(1)[OF inv] by simp
  show "\<forall>a. a < next_block st \<longrightarrow> (\<forall>v. vectors st that = Some v \<longrightarrow> a \<noteq> m_buffer (m_data v)) \<longrightarrow>
          map_option (map is_live) (heap ?st' a) = map_option (map is_live) (heap st a)"
    by simp
  show "\<forall>v'. Some \<lparr>m_data = \<lparr>m_buffer = 0, m_capacity = 0\<rparr>, m_size = 0\<rparr> = Some v' \<longrightarrow>
          vector_inv ?st' v' \<and>
          (m_buffer (m_data v') = 0 \<or> next_block st \<le> m_buffer (m_data v') \<or>
           (\<exists>v. vectors st that = Some v \<and> m_buffer (m_data v') = m_buffer (m_data v)))"
    by (auto simp: vector_inv_def Capacity_def)
qed

lemma store_inv_new_vector:
  assumes inv: "store_inv st" and le: "length ys \<le> c" and c0: "c \<noteq> 0"
  shows "store_inv (reallocated that 0 ys c st)"
proof (rule store_inv_update[OF inv, where this = that and vo = "Some (vector_at (next_block st) ys c)"])
  let ?st' = "reallocated that 0 ys c st" and ?nb = "next_block st"
  note h0 = store_invD(1)[OF inv] and nb0 = store_invD(2)[OF inv] and fr = store_invD(3)[OF inv]
  show "vectors ?st' = (vectors st)(that \<mapsto> vector_at ?nb ys c)" by simp
  show "?nb \<le> next_block ?st'" by simp
  show "\<forall>a. next_block ?st' \<le> a \<longrightarrow> heap ?st' a = None"
    using fr by (auto simp: heap_reallocated)
  show "heap ?st' 0 = None" using h0 nb0 by (simp add: heap_reallocated)
  show "\<forall>a. a < ?nb \<longrightarrow> (\<forall>v. vectors st that = Some v \<longrightarrow> a \<noteq> m_buffer (m_data v)) \<longrightarrow>
          map_option (map is_live) (heap ?st' a) = map_option (map is_live) (heap st a)"
    by (auto simp: heap_reallocated)
  have "owns ?st' (vector_at ?nb ys c) ys"
    using nb0 le c0 by (intro owns_reallocated) simp_all
  then have "vector_inv ?st' (vector_at ?nb ys c)" by (rule owns_vector_inv)
  then show "\<forall>v'. Some (vector_at ?nb ys c) = Some v' \<longrightarrow> vector_inv ?st' v' \<and>
          (m_buffer (m_data v') = 0 \<or> ?nb \<le> m_buffer (m_data v') \<or>
           (\<exists>v. vectors st that = Some v \<and> m_buffer (m_data v') = m_buffer (m_data v)))"
    by (auto simp: vector_at_def)
qed

lemma store_inv_swap:
  assumes inv: "store_inv st" and va: "vectors st a = Some va" and vb: "vectors st b = Some vb"
  shows "store_inv (put_vector a vb (put_vector b va st))"
  unfolding store_inv_def
proof (intro conjI allI impI)
  let ?st' = "put_vector a vb (put_vector b va st)"
  let ?p = "\<lambda>t. if t = a then b else if t = b then a else t"
  note vi = store_invD(4)[OF inv] and dj = store_invD(5)[OF inv]
  show "heap ?st' 0 = None" using store_invD(1)[OF inv] by simp
  show "next_block ?st' \<noteq> 0" using store_invD(2)[OF inv] by simp
  show "\<And>x. next_block ?st' \<le> x \<Longrightarrow> heap ?st' x = None" using store_invD(3)[OF inv] by simp
  have p: "vectors ?st' t = vectors st (?p t)" for t using va vb by simp
  show "vector_inv ?st' w" if "vectors ?st' t = Some w" for t w
  proof -
    from that have "vectors st (?p t) = Some w" unfolding p .
    then have "vector_inv st w" by (rule vi)
    then show ?thesis by (simp add: vector_inv_def)
  qed
  show "m_buffer (m_data w1) \<noteq> m_buffer (m_data w2)"
    if t: "vectors ?st' t1 = Some w1 \<and> vectors ?st' t2 = Some w2 \<and> t1 \<noteq> t2 \<and> m_buffer (m_data w1) \<noteq> 0"
    for t1 t2 w1 w2
  proof -
    from t have 1: "vectors st (?p t1) = Some w1" and 2: "vectors st (?p t2) = Some w2"
      unfolding p by blast+
    from t have "?p t1 \<noteq> ?p t2" by (auto split: if_splits)
    from dj[OF 1 2 this] t show ?thesis by blast
  qed
qed

lemma store_inv_remove:
  assumes inv: "store_inv st" and v: "vectors st this = Some v"
    and heap: "heap st' = (if m_buffer (m_data v) = 0 then heap st
                           else (heap st)(m_buffer (m_data v) := None))"
    and nb: "next_block st' = next_block st" and vs: "vectors st' = (vectors st)(this := None)"
  shows "store_inv st'"
proof (rule store_inv_update[OF inv, where this = this and vo = None])
  show "vectors st' = (vectors st)(this := None)" by fact
  show "next_block st \<le> next_block st'" using nb by simp
  show "\<forall>a. next_block st' \<le> a \<longrightarrow> heap st' a = None"
    using store_invD(3)[OF inv] nb heap by auto
  show "heap st' 0 = None" using store_invD(1)[OF inv] heap by auto
  show "\<forall>a. a < next_block st \<longrightarrow> (\<forall>va. vectors st this = Some va \<longrightarrow> a \<noteq> m_buffer (m_data va)) \<longrightarrow>
          map_option (map is_live) (heap st' a) = map_option (map is_live) (heap st a)"
    using v heap by auto
  show "\<forall>v'. None = Some v' \<longrightarrow> vector_inv st' v' \<and>
          (m_buffer (m_data v') = 0 \<or> next_block st \<le> m_buffer (m_data v') \<or>
           (\<exists>va. vectors st this = Some va \<and> m_buffer (m_data v') = m_buffer (m_data va)))"
    by simp
qed

text \<open>The operations, one by one, in every outcome.\<close>

lemma invariant_after_and_then_unit [simp]:
  "invariant_after (and_then m (\<lambda>_ st1. Returned () st1)) = invariant_after m"
  by (cases m) simp_all

lemma RawMemory_zero [simp]:
  "RawMemory E 0 st = Returned \<lparr>m_buffer = 0, m_capacity = 0\<rparr> st"
  by (simp add: RawMemory_def Allocate_def)

lemma inv_Vector_default:
  "store_inv st \<Longrightarrow> invariant_after (Vector_default that st)"
  by (simp add: Vector_default_def RawMemory_default_def store_inv_put_empty)

lemma new_vector_store:
  "put_vector that \<lparr>m_data = \<lparr>m_buffer = next_block st, m_capacity = c\<rparr>, m_size = length ys\<rparr>
     (set_block (next_block st) (block_with ys c) (new_block c st)) = reallocated that 0 ys c st"
  by (simp add: reallocated_def release_def vector_at_def)

lemma inv_Vector_sized:
  assumes inv: "store_inv st" and ft: "bytes_fit E n"
  shows "invariant_after (Vector_sized E that n st)"
proof (cases "n = 0")
  case True
  then show ?thesis
    using inv by (simp add: Vector_sized_def RawMemory_closed[OF ft] GetAddress_def
                    uninitialized_value_construct_n_def store_inv_put_empty)
next
  case n0: False
  let ?nb = "next_block st" and ?st1 = "new_block n st"
  let ?ys = "replicate n (value_init E)"
  have h1: "heap ?st1 ?nb = Some (block_with [] n)" by (simp add: block_with_def)
  have u: "uninitialized_value_construct_n E (?nb, length ([] :: 'a list)) n ?st1 =
     (if \<exists>k<n. value_init_throws E k then Threw elem_exn ?st1
      else Returned () (set_block ?nb (block_with ([] @ ?ys) n) ?st1))"
    by (rule value_construct_block[OF h1]) simp
  have dl: "Deallocate ?nb ?st1 = Returned () (release ?nb ?st1)"
    by (intro Deallocate_release) simp
  have fin: "put_vector that \<lparr>m_data = \<lparr>m_buffer = ?nb, m_capacity = n\<rparr>, m_size = n\<rparr>
               (set_block ?nb (block_with ?ys n) ?st1) = reallocated that 0 ?ys n st"
    using new_vector_store[of that st n ?ys] by simp
  have i1: "store_inv (release ?nb ?st1)" using inv by (rule store_inv_new_release)
  have i2: "store_inv (reallocated that 0 ?ys n st)"
    using inv n0 by (intro store_inv_new_vector) simp_all
  show ?thesis
    using n0 u dl fin i1 i2 inv
    by (simp add: Vector_sized_def RawMemory_closed[OF ft] GetAddress_def RawMemory_dtor_def)
qed

lemma Vector_copy_value_closed:
  assumes inv: "store_inv st" and ob: "owns st vb ys" and ft: "bytes_fit E (length ys)"
  shows "Vector_copy_value E vb st =
     (if ys = [] then Returned \<lparr>m_data = \<lparr>m_buffer = 0, m_capacity = 0\<rparr>, m_size = 0\<rparr> st
      else if alloc_fails E (length ys) then Threw bad_alloc st
      else if \<exists>y\<in>set ys. copy_ctor_throws E y
      then Threw elem_exn (release (next_block st) (new_block (length ys) st))
      else Returned \<lparr>m_data = \<lparr>m_buffer = next_block st, m_capacity = length ys\<rparr>, m_size = length ys\<rparr>
             (set_block (next_block st) (block_with ys (length ys)) (new_block (length ys) st)))"
proof (cases "ys = []")
  case True
  with ob have "m_size vb = 0" using owns_size by fastforce
  then show ?thesis
    using True by (simp add: Vector_copy_value_def RawMemory_closed[OF ft] GetAddress_def
                     uninitialized_copy_n_def)
next
  case False
  let ?bb = "m_buffer (m_data vb)" and ?cb = "Capacity vb" and ?nb = "next_block st"
  from ob have sb: "m_size vb = length ys" and lb: "length ys \<le> ?cb" using owns_size by blast+
  from False have n0: "length ys \<noteq> 0" by simp
  with lb have cb0: "?cb \<noteq> 0" by linarith
  have bbn: "?bb \<noteq> ?nb" using inv ob by (rule owns_buffer_fresh)
  from ob cb0 have hb: "heap st ?bb = Some (block_with ys ?cb)" using owns_block by blast
  let ?st1 = "new_block (length ys) st"
  have h1: "heap ?st1 ?bb = Some (block_with ys ?cb)" "heap ?st1 ?nb = Some (replicate (length ys) Raw)"
    using hb bbn by simp_all
  have uc: "uninit_copy_from E (?bb, 0) (?nb, 0) 0 (length ys) ?st1 =
     (if \<exists>v\<in>set ys. copy_ctor_throws E v
      then Threw elem_exn (set_block ?nb (overwrite (replicate (length ys) Raw) 0 (replicate 0 Raw)) ?st1)
      else Returned () (set_block ?nb (overwrite (replicate (length ys) Raw) (0 + 0) (map Live ys)) ?st1))"
    using uninit_copy_from_block[OF h1(1) h1(2) bbn, of 0 0 ys 0 E] lb
    by (simp add: block_with_live)
  have e1: "set_block ?nb (replicate (length ys) Raw) ?st1 = ?st1"
    by (intro set_block_same) simp
  have uc': "uninitialized_copy_n E (?bb, 0) (length ys) (?nb, 0) ?st1 =
     (if \<exists>v\<in>set ys. copy_ctor_throws E v then Threw elem_exn ?st1
      else Returned () (set_block ?nb (block_with ys (length ys)) ?st1))"
    using uc e1 by (simp add: uninitialized_copy_n_def overwrite_raw_block)
  have dl: "Deallocate ?nb ?st1 = Returned () (release ?nb ?st1)"
    by (intro Deallocate_release) simp
  show ?thesis
    using False n0 sb uc' dl
    by (simp add: Vector_copy_value_def RawMemory_closed[OF ft] GetAddress_def RawMemory_dtor_def)
qed

lemma inv_Vector_copy:
  assumes inv: "store_inv st" and v: "vectors st this = Some v" and own: "owns st v xs"
    and ft: "bytes_fit E (length xs)"
  shows "invariant_after (Vector_copy E that this st)"
proof -
  note c = Vector_copy_value_closed[OF inv own ft]
  have i1: "store_inv (release (next_block st) (new_block (length xs) st))"
    using inv by (rule store_inv_new_release)
  have i2: "store_inv (reallocated that 0 xs (length xs) st)" if "xs \<noteq> []"
    using inv that by (intro store_inv_new_vector) simp_all
  show ?thesis
    using v c inv i1 i2 new_vector_store[of that st "length xs" xs]
    by (simp add: Vector_copy_def store_inv_put_empty)
qed

lemma inv_Swap:
  assumes inv: "store_inv st" and v: "vectors st this = Some v" and w: "vectors st other = Some w"
  shows "invariant_after (Swap this other st)"
  using Swap_vectors[OF v w] store_inv_swap[OF inv v w] by simp

lemma inv_move_assign:
  assumes inv: "store_inv st" and v: "vectors st this = Some v" and w: "vectors st other = Some w"
  shows "invariant_after (move_assign this other st)"
  using inv_Swap[OF inv v w] inv v w by (simp add: move_assign_def)

lemma inv_Vector_move:
  assumes inv: "store_inv st" and v: "vectors st this = Some v"
  shows "invariant_after (Vector_move that this st)"
proof -
  let ?d = "\<lparr>m_data = \<lparr>m_buffer = 0, m_capacity = 0\<rparr>, m_size = 0\<rparr>"
  let ?st1 = "put_vector that ?d st"
  have i: "store_inv ?st1" using inv by (rule store_inv_put_empty)
  have t: "vectors ?st1 that = Some ?d" by simp
  obtain w where w: "vectors ?st1 this = Some w" using v by (cases "this = that") simp_all
  from inv_Swap[OF i t w] show ?thesis
    by (simp add: Vector_move_def RawMemory_default_def)
qed

lemma inv_copy_assign:
  assumes inv: "store_inv st" and va: "vectors st a = Some va" and vb: "vectors st b = Some vb"
    and oa: "owns st va xs" and ob: "owns st vb ys"
    and ft: "Capacity va < length ys \<longrightarrow> bytes_fit E (length ys)"
  shows "invariant_after (copy_assign E a b st)"
proof (cases "a = b")
  case True
  then show ?thesis using va inv by (simp add: copy_assign_def)
next
  case ab: False
  let ?ba = "m_buffer (m_data va)" and ?ca = "Capacity va"
  let ?ok = "takeWhile (\<lambda>y. \<not> copy_assign_throws E y) (take (length xs) ys)"
  note c = copy_assign_closed[OF inv va vb ab oa ob ft]
  from oa have la: "length xs \<le> ?ca" using owns_size by blast
  have i1: "store_inv (release (next_block st) (new_block (length ys) st))"
    using inv by (rule store_inv_new_release)
  have i2: "store_inv (reallocated a ?ba ys (length ys) st)" if "?ca < length ys"
    using inv va _ _ _ by (rule store_inv_reallocated) (use that in auto)
  have i3: "store_inv (in_place a ?ba zs ?ca st)" if "?ca \<noteq> 0" "length zs \<le> ?ca" for zs
  proof -
    from oa that(1) have "?ba \<noteq> 0" using owns_block by blast
    with inv va _ show ?thesis by (rule store_inv_in_place) (use that in simp_all)
  qed
  have i4: "store_inv (set_block ?ba (overwrite (block_with xs ?ca) 0 (map Live ?ok)) st)"
    if c0: "?ca \<noteq> 0"
  proof (rule store_inv_set_block[OF inv va])
    from oa c0 have hb: "heap st ?ba = Some (block_with xs ?ca)" using owns_block by blast
    have lok: "length ?ok \<le> length xs"
      using length_takeWhile_le[of "\<lambda>y. \<not> copy_assign_throws E y" "take (length xs) ys"] by simp
    have "map is_live (overwrite (block_with xs ?ca) 0 (map Live ?ok)) = map is_live (block_with xs ?ca)"
      using lok la by (intro shape_overwrite_live) (auto simp: block_with_live)
    with hb show "map_option (map is_live) (heap st ?ba) =
                   Some (map is_live (overwrite (block_with xs ?ca) 0 (map Live ?ok)))"
      by simp
  qed
  show ?thesis
    unfolding c using inv i1 i2 i3 i4 la by (auto simp: min_def)
qed

lemma Vector_dtor_closed:
  assumes v: "vectors st this = Some v" and own: "owns st v xs"
  shows "DestroyN (GetAddress (m_data v)) (m_size v) st =
           Returned () (if Capacity v = 0 then st
                        else set_block (m_buffer (m_data v)) (replicate (Capacity v) Raw) st)"
    and "Vector_dtor this st =
           Returned () ((release (m_buffer (m_data v)) st)\<lparr>vectors := (vectors st)(this := None)\<rparr>)"
proof -
  let ?b = "m_buffer (m_data v)" and ?c = "Capacity v"
  from own have sz: "m_size v = length xs" and le: "length xs \<le> ?c" using owns_size by blast+
  have d: "DestroyN (?b, 0) (length xs) st =
           Returned () (if ?c = 0 then st else set_block ?b (replicate ?c Raw) st)"
  proof (cases "?c = 0")
    case True
    with own have "xs = []" using owns_empty by blast
    then show ?thesis using True by simp
  next
    case False
    with own have hb: "heap st ?b = Some (block_with xs ?c)" using owns_block by blast
    have "DestroyN (?b, 0) (length xs) st =
          Returned () (set_block ?b (overwrite (block_with xs ?c) 0 (replicate (length xs) Raw)) st)"
      using hb le by (intro DestroyN_block) (simp_all add: block_with_live)
    moreover have "overwrite (block_with xs ?c) 0 (replicate (length xs) Raw) = replicate ?c Raw"
      using le by (simp add: overwrite_def block_with_def replicate_add[symmetric])
    ultimately show ?thesis using False by simp
  qed
  then show "DestroyN (GetAddress (m_data v)) (m_size v) st =
           Returned () (if ?c = 0 then st else set_block ?b (replicate ?c Raw) st)"
    by (simp add: GetAddress_def sz)
  have r: "Deallocate ?b (if ?c = 0 then st else set_block ?b (replicate ?c Raw) st) =
           Returned () (release ?b st)"
  proof (cases "?c = 0")
    case True
    with own have "?b = 0" using owns_empty by blast
    then show ?thesis using True by (simp add: Deallocate_def release_def)
  next
    case False
    with own have b0: "?b \<noteq> 0" using owns_block by blast
    have "Deallocate ?b (set_block ?b (replicate ?c Raw) st) =
          Returned () (release ?b (set_block ?b (replicate ?c Raw) st))"
      by (intro Deallocate_release) simp
    moreover have "release ?b (set_block ?b (replicate ?c Raw) st) = release ?b st"
      using b0 by (intro store_eqI) auto
    ultimately show ?thesis using False by simp
  qed
  show "Vector_dtor this st =
           Returned () ((release ?b st)\<lparr>vectors := (vectors st)(this := None)\<rparr>)"
    using v d r by (simp add: Vector_dtor_def Vector_dtor_value_def GetAddress_def sz RawMemory_dtor_def)
qed

lemma inv_Vector_dtor:
  assumes inv: "store_inv st" and v: "vectors st this = Some v" and own: "owns st v xs"
  shows "invariant_after (Vector_dtor this st)"
proof -
  have "store_inv ((release (m_buffer (m_data v)) st)\<lparr>vectors := (vectors st)(this := None)\<rparr>)"
    using inv v by (rule store_inv_remove) simp_all
  then show ?thesis unfolding Vector_dtor_closed(2)[OF v own] by simp
qed

lemma inv_PopBack:
  assumes inv: "store_inv st" and v: "vectors st this = Some v" and own: "owns st v xs"
    and ne: "xs \<noteq> []"
  shows "invariant_after (PopBack this st)"
proof -
  from own have le: "length xs \<le> Capacity v" using owns_size by blast
  with ne have c0: "Capacity v \<noteq> 0" by (cases xs) auto
  with own have b0: "m_buffer (m_data v) \<noteq> 0" using owns_block by blast
  have "store_inv (in_place this (m_buffer (m_data v)) (butlast xs) (Capacity v) st)"
    using inv v _ b0 _ c0 by (rule store_inv_in_place) (use le in simp_all)
  then show ?thesis unfolding PopBack_closed[OF v own ne] by simp
qed

lemma inv_Reserve:
  assumes inv: "store_inv st" and v: "vectors st this = Some v" and own: "owns st v xs"
    and ft: "Capacity v < n \<longrightarrow> bytes_fit E n"
  shows "invariant_after (Reserve E this n st)"
proof (cases "n \<le> Capacity v")
  case True
  then show ?thesis using v inv by (simp add: Reserve_def)
next
  case False
  let ?b = "m_buffer (m_data v)" and ?c = "Capacity v"
  from False ft have n: "?c < n" and ftn: "bytes_fit E n" by simp_all
  from own have le: "length xs \<le> ?c" using owns_size by blast
  from Reserve_closed[OF inv v own n ftn] obtain blk' where
    sh: "?c \<noteq> 0 \<longrightarrow> map is_live blk' = map is_live (block_with xs ?c)"
    and r: "Reserve E this n st =
             (if alloc_fails E n then Threw bad_alloc st
              else if \<exists>x\<in>set xs. transfer_throws E x
              then Threw elem_exn (release (next_block st) (set_block ?b blk' (new_block n st)))
              else Returned () (reallocated this ?b xs n st))"
    by blast
  have i1: "store_inv (release (next_block st) (set_block ?b blk' (new_block n st)))"
    if "\<exists>x\<in>set xs. transfer_throws E x"
  proof (rule store_inv_alloc_release[OF inv v])
    from that have "xs \<noteq> []" by auto
    with le have c0: "?c \<noteq> 0" by (cases xs) auto
    with own have "heap st ?b = Some (block_with xs ?c)" "?b \<noteq> 0" using owns_block by blast+
    with sh c0 show "?b \<noteq> 0 \<and> map_option (map is_live) (heap st ?b) = Some (map is_live blk')"
      by simp
  qed
  have i2: "store_inv (reallocated this ?b xs n st)"
    using inv v _ _ _ by (rule store_inv_reallocated) (use le n in auto)
  show ?thesis unfolding r using inv i1 i2 by auto
qed

lemma inv_Resize:
  assumes inv: "store_inv st" and v: "vectors st this = Some v" and own: "owns st v xs"
    and ft: "Capacity v < n \<longrightarrow> bytes_fit E n"
  shows "invariant_after (Resize E this n st)"
proof -
  let ?b = "m_buffer (m_data v)" and ?c = "Capacity v"
  from own have le: "length xs \<le> ?c" using owns_size by blast
  from Resize_closed[OF inv v own ft] obtain blk' where
    sh: "?c \<noteq> 0 \<longrightarrow> map is_live blk' = map is_live (block_with xs ?c)"
    and r: "Resize E this n st =
     (if n < length xs then Returned () (in_place this ?b (take n xs) ?c st)
      else if n = length xs then Returned () st
      else if n \<le> ?c then
        (if \<exists>k<n - length xs. value_init_throws E k then Threw elem_exn st
         else Returned () (in_place this ?b (xs @ replicate (n - length xs) (value_init E)) ?c st))
      else if alloc_fails E n then Threw bad_alloc st
      else if \<exists>x\<in>set xs. transfer_throws E x
      then Threw elem_exn (release (next_block st) (set_block ?b blk' (new_block n st)))
      else if \<exists>k<n - length xs. value_init_throws E k
      then Threw elem_exn (reallocated this ?b xs n st)
      else Returned () (reallocated this ?b (xs @ replicate (n - length xs) (value_init E)) n st))"
    by blast
  have i1: "store_inv (release (next_block st) (set_block ?b blk' (new_block n st)))"
    if "\<exists>x\<in>set xs. transfer_throws E x"
  proof (rule store_inv_alloc_release[OF inv v])
    from that have "xs \<noteq> []" by auto
    with le have c0: "?c \<noteq> 0" by (cases xs) auto
    with own have "heap st ?b = Some (block_with xs ?c)" "?b \<noteq> 0" using owns_block by blast+
    with sh c0 show "?b \<noteq> 0 \<and> map_option (map is_live) (heap st ?b) = Some (map is_live blk')"
      by simp
  qed
  have i2: "store_inv (reallocated this ?b zs n st)" if "length zs \<le> n" "n \<noteq> 0" for zs
    using inv v _ that by (rule store_inv_reallocated) simp
  have i3: "store_inv (in_place this ?b zs ?c st)" if "?c \<noteq> 0" "length zs \<le> ?c" for zs
  proof -
    from own that(1) have "?b \<noteq> 0" using owns_block by blast
    with inv v _ show ?thesis by (rule store_inv_in_place) (use that in simp_all)
  qed
  show ?thesis
    unfolding r using inv i1 i2 i3 le by auto
qed

lemma move_loop_shape:
  "heap st b = Some blk \<Longrightarrow> Suc (p + n) \<le> length blk \<Longrightarrow> \<forall>j\<le>n. is_live (blk ! (p + j)) \<Longrightarrow>
   \<exists>blk'. map is_live blk' = map is_live blk \<and>
     (move_loop E (b, Suc p) (b, p) n st = Returned () (set_block b blk' st) \<or>
      move_loop E (b, Suc p) (b, p) n st = Threw elem_exn (set_block b blk' st))"
proof (induction n arbitrary: p blk st)
  case 0
  then show ?case by (intro exI[of _ blk]) (simp add: set_block_same)
next
  case (Suc n)
  from Suc.prems(3) have lp: "is_live (blk ! p)" and ls: "is_live (blk ! Suc p)"
    by (metis add_0_right le0, metis Suc_le_mono add_Suc_right add_0_right le0)
  from ls obtain v where v: "blk ! Suc p = Live v" by (cases "blk ! Suc p") auto
  from lp obtain w where w: "blk ! p = Live w" by (cases "blk ! p") auto
  have b: "Suc p < length blk" "p < length blk" using Suc.prems(2) by simp_all
  show ?case
  proof (cases "move_assign_throws E v")
    case True
    have "move_assign_elem E (b, Suc p) (b, p) st = Threw elem_exn st"
      using Suc.prems(1) b v w True
      by (simp add: move_assign_elem_def assign_value_def slot_at_block)
    then show ?thesis
      using Suc.prems(1) by (intro exI[of _ blk]) (simp add: set_block_same)
  next
    case False
    let ?blk1 = "blk[p := Live v, Suc p := Live (moved_from E v)]"
    let ?st1 = "set_block b ?blk1 st"
    have m: "move_assign_elem E (b, Suc p) (b, p) st = Returned () ?st1"
      using Suc.prems(1) b(1) v b(2) lp False by (rule move_assign_elem_block)
    have sh1: "map is_live ?blk1 = map is_live blk"
    proof (rule nth_equalityI)
      show "length (map is_live ?blk1) = length (map is_live blk)" by simp
    next
      fix i assume "i < length (map is_live ?blk1)"
      then have "i < length blk" by simp
      then show "map is_live ?blk1 ! i = map is_live blk ! i"
        using lp ls by (cases "i = p"; cases "i = Suc p") (simp_all add: nth_list_update)
    qed
    have h1: "heap ?st1 b = Some ?blk1" by simp
    have l1: "Suc (Suc p + n) \<le> length ?blk1" using Suc.prems(2) by simp
    have live1: "\<forall>j\<le>n. is_live (?blk1 ! (Suc p + j))"
    proof (intro allI impI)
      fix j assume j: "j \<le> n"
      then have "is_live (blk ! (p + Suc j))" using Suc.prems(3) by (metis Suc_le_mono)
      moreover have "Suc p + j < length blk" using j Suc.prems(2) by simp
      ultimately have "map is_live blk ! (Suc p + j)" by simp
      then have "map is_live ?blk1 ! (Suc p + j)" by (simp only: sh1)
      then show "is_live (?blk1 ! (Suc p + j))"
        using \<open>Suc p + j < length blk\<close> by simp
    qed
    from Suc.IH[OF h1 l1 live1] obtain blk' where
      s: "map is_live blk' = map is_live ?blk1"
      and r: "move_loop E (b, Suc (Suc p)) (b, Suc p) n ?st1 = Returned () (set_block b blk' ?st1) \<or>
              move_loop E (b, Suc (Suc p)) (b, Suc p) n ?st1 = Threw elem_exn (set_block b blk' ?st1)"
      by blast
    show ?thesis
      using m r s sh1 by (intro exI[of _ blk']) auto
  qed
qed

lemma inv_Erase:
  assumes inv: "store_inv st" and v: "vectors st this = Some v" and own: "owns st v xs"
    and k: "k < length xs"
  shows "invariant_after (Erase E this (m_buffer (m_data v), k) st)"
proof -
  let ?b = "m_buffer (m_data v)" and ?c = "Capacity v" and ?blk = "block_with xs (Capacity v)"
  from own have sz: "m_size v = length xs" and le: "length xs \<le> ?c" using owns_size by blast+
  from k le have c0: "?c \<noteq> 0" by simp
  with own have hb: "heap st ?b = Some ?blk" and b0: "?b \<noteq> 0" using owns_block by blast+
  have n: "Suc (k + (length xs - Suc k)) \<le> length ?blk" using k le by simp
  have live: "\<forall>j\<le>length xs - Suc k. is_live (?blk ! (k + j))"
    using k le by (auto simp: block_with_live)
  from move_loop_shape[OF hb n live, of E] obtain blk' where
    sh: "map is_live blk' = map is_live ?blk"
    and r: "move_loop E (?b, Suc k) (?b, k) (length xs - Suc k) st = Returned () (set_block ?b blk' st) \<or>
            move_loop E (?b, Suc k) (?b, k) (length xs - Suc k) st = Threw elem_exn (set_block ?b blk' st)"
    by blast
  have len': "length blk' = ?c" using sh le by (metis block_with_length length_map)
  have i1: "store_inv (set_block ?b blk' st)"
    using inv v by (rule store_inv_set_block) (simp add: hb sh)
  from r show ?thesis
  proof
    assume t: "move_loop E (?b, Suc k) (?b, k) (length xs - Suc k) st = Threw elem_exn (set_block ?b blk' st)"
    show ?thesis
      using v sz k t i1 by (simp add: Erase_def std_move_def Vector_end_owns[OF own])
  next
    assume t: "move_loop E (?b, Suc k) (?b, k) (length xs - Suc k) st = Returned () (set_block ?b blk' st)"
    have lt: "length xs - 1 < length blk'" using k le len' by simp
    have "is_live (blk' ! (length xs - 1))"
      using shape_live[OF sh, of "length xs - 1"] k le by (simp add: block_with_live)
    then have d: "Destroy (?b, length xs - 1) (set_block ?b blk' st) =
             Returned () (set_block ?b (blk'[length xs - 1 := Raw]) (set_block ?b blk' st))"
      using lt by (intro Destroy_block) simp_all
    let ?v' = "v\<lparr>m_size := length xs - 1\<rparr>"
    let ?st' = "put_vector this ?v' (set_block ?b (blk'[length xs - 1 := Raw]) st)"
    have shape': "map is_live (blk'[length xs - 1 := Raw]) =
                  replicate (length xs - 1) True @ replicate (?c - (length xs - 1)) False"
    proof (rule nth_equalityI)
      show "length (map is_live (blk'[length xs - 1 := Raw])) =
            length (replicate (length xs - 1) True @ replicate (?c - (length xs - 1)) False)"
        using len' k le by simp
    next
      fix i assume "i < length (map is_live (blk'[length xs - 1 := Raw]))"
      then have i: "i < ?c" using len' by simp
      have "is_live (blk' ! i) = is_live (?blk ! i)" using shape_live[OF sh, of i] i le by simp
      then show "map is_live (blk'[length xs - 1 := Raw]) ! i =
                 (replicate (length xs - 1) True @ replicate (?c - (length xs - 1)) False) ! i"
        using i len' k le
        by (cases "i < length xs - 1"; cases "i = length xs - 1")
           (auto simp: nth_append nth_list_update block_with_live block_with_raw)
    qed
    have "store_inv ?st'"
    proof (rule store_inv_update[OF inv, where this = this and vo = "Some ?v'"])
      show "vectors ?st' = (vectors st)(this \<mapsto> ?v')" by simp
      show "next_block st \<le> next_block ?st'" by simp
      have bn: "?b < next_block st" using inv hb store_inv_block_lt by blast
      show "\<forall>a. next_block ?st' \<le> a \<longrightarrow> heap ?st' a = None"
        using store_invD(3)[OF inv] bn by auto
      show "heap ?st' 0 = None" using store_invD(1)[OF inv] b0 by auto
      show "\<forall>a. a < next_block st \<longrightarrow> (\<forall>va. vectors st this = Some va \<longrightarrow> a \<noteq> m_buffer (m_data va)) \<longrightarrow>
              map_option (map is_live) (heap ?st' a) = map_option (map is_live) (heap st a)"
        using v by auto
      have "vector_inv ?st' ?v'"
        using shape' b0 c0 k le by (simp add: vector_inv_def Capacity_def)
      then show "\<forall>v'. Some ?v' = Some v' \<longrightarrow> vector_inv ?st' v' \<and>
          (m_buffer (m_data v') = 0 \<or> next_block st \<le> m_buffer (m_data v') \<or>
           (\<exists>va. vectors st this = Some va \<and> m_buffer (m_data v') = m_buffer (m_data va)))"
        using v by auto
    qed
    then show ?thesis
      using v sz k t d by (simp add: Erase_def std_move_def Vector_end_owns[OF own])
  qed
qed

lemma inv_Emplace:
  assumes inv: "store_inv st" and v: "vectors st this = Some v" and own: "owns st v xs"
    and k: "k \<le> length xs"
    and nti: "length xs < Capacity v \<and> k < length xs \<longrightarrow>
             \<not> move_ctor_throws E (last xs) \<and>
             (\<forall>y\<in>set (butlast (drop k xs)). \<not> move_assign_throws E y) \<and>
             (\<forall>x. args = Some x \<longrightarrow> \<not> move_assign_throws E x)"
    and ntr: "length xs = Capacity v \<longrightarrow>
             bytes_fit E (if Capacity v = 0 then 1 else Capacity v * 2) \<and>
             (\<forall>x\<in>set xs. \<not> transfer_throws E x)"
  shows "invariant_after (Emplace E this (m_buffer (m_data v), k) args st)"
proof -
  let ?b = "m_buffer (m_data v)" and ?c = "Capacity v"
  let ?sz = "if ?c = 0 then 1 else ?c * 2"
  from own have sz: "m_size v = length xs" and le: "length xs \<le> ?c" using owns_size by blast+
  show ?thesis
  proof (cases "length xs < ?c")
    case True
    then have c0: "?c \<noteq> 0" by simp
    with own have b0: "?b \<noteq> 0" using owns_block by blast
    from nti True have nt: "k < length xs \<longrightarrow> \<not> move_ctor_throws E (last xs) \<and>
             (\<forall>y\<in>set (butlast (drop k xs)). \<not> move_assign_throws E y) \<and>
             (\<forall>x. args = Some x \<longrightarrow> \<not> move_assign_throws E x)" by simp
    have e: "Emplace E this (?b, k) args st = Emplace_in_place E this v (?b, k) args st"
      using v sz k True by (simp add: Emplace_def)
    have i: "store_inv (in_place this ?b (take k xs @ x # drop k xs) ?c st)" for x
      using inv v _ b0 _ c0 by (rule store_inv_in_place) (use True k in simp_all)
    show ?thesis
      unfolding e Emplace_in_place_closed[OF v own k True nt]
      using inv i by (cases args) simp_all
  next
    case False
    with le have full: "length xs = ?c" by simp
    with ntr have ft: "bytes_fit E ?sz" and nt: "\<forall>x\<in>set xs. \<not> transfer_throws E x" by simp_all
    have e: "Emplace E this (?b, k) args st = Emplace_realloc E this v (?b, k) args st"
      using v sz k False by (simp add: Emplace_def)
    have i1: "store_inv (release (next_block st) (new_block ?sz st))"
      using inv by (rule store_inv_new_release)
    have i2: "store_inv (reallocated this ?b (take k xs @ x # drop k xs) ?sz st)" for x
      using inv v _ _ _ by (rule store_inv_reallocated) (use full k in auto)
    show ?thesis
      unfolding e Emplace_realloc_closed[OF inv v own k full nt ft]
      using inv i1 i2 by (cases args) simp_all
  qed
qed

text \<open>A failure on the path of \<^verbatim>\<open>Emplace\<close> that has room, evaluated.\<close>

lemma fast_path_failure:
  "Emplace (move_assign_throws_on 9) 10 (1, 0) (Some 9) (one_vector 10 1 [1, 2] 3) =
     Threw elem_exn (set_block 1 [Live 1, Live 1, Live 2] (one_vector 10 1 [1, 2] 3))"
proof -
  have e: "\<not> move_ctor_throws (move_assign_throws_on 9) x" "moved_from (move_assign_throws_on 9) x = x"
    "move_assign_throws (move_assign_throws_on 9) x = (x = 9)" for x
    by (simp_all add: move_assign_throws_on_def int_env_def)
  have 2: "Suc (Suc 0) = 2" "Suc 2 = 3" by simp_all
  show ?thesis
    by (simp add: Emplace_def Emplace_in_place_def one_vector_def vector_at_def block_with_def Capacity_def
          Vector_end_def GetAddress_def uninitialized_move_n_def move_construct_def slot_at_def
          construct_at_def put_slot_def std_move_backward_def move_assign_elem_def assign_value_def
          set_block_def e 2 fun_upd_twist)
qed

text \<open>
  Every vector of a store that satisfies the invariant holds some list of values, so that
  the hypothesis \<open>owns st v xs\<close> below only names them.
\<close>

lemma store_inv_owns:
  assumes "store_inv st" and "vectors st this = Some v"
  shows "\<exists>xs. owns st v xs"
proof (cases "Capacity v = 0")
  case True
  with store_invD(4)[OF assms] have "owns st v []" by (simp add: vector_inv_def owns_def)
  then show ?thesis ..
next
  case False
  let ?s = "m_size v" and ?c = "Capacity v"
  from store_invD(4)[OF assms] False obtain blk where
    le: "?s \<le> ?c" and b0: "m_buffer (m_data v) \<noteq> 0"
    and hb: "heap st (m_buffer (m_data v)) = Some blk"
    and sh: "map is_live blk = replicate ?s True @ replicate (?c - ?s) False"
    by (auto simp: vector_inv_def split: option.splits)
  let ?xs = "map (\<lambda>x. the (value_of x)) (take ?s blk)"
  have len: "length blk = ?c"
  proof -
    have "length (map is_live blk) = ?s + (?c - ?s)" unfolding sh by simp
    then show ?thesis using le by simp
  qed
  have live: "is_live (blk ! i) \<longleftrightarrow> i < ?s" if "i < ?c" for i
  proof -
    have "is_live (blk ! i) = map is_live blk ! i" using that len by simp
    also have "\<dots> = (i < ?s)" unfolding sh using that by (simp add: nth_append)
    finally show ?thesis .
  qed
  have "blk = map Live ?xs @ replicate (?c - length ?xs) Raw"
  proof (rule nth_equalityI)
    show "length blk = length (map Live ?xs @ replicate (?c - length ?xs) Raw)"
      using len le by simp
  next
    fix i assume "i < length blk"
    then have i: "i < ?c" using len by simp
    show "blk ! i = (map Live ?xs @ replicate (?c - length ?xs) Raw) ! i"
    proof (cases "i < ?s")
      case True
      with live[OF i] obtain x where "blk ! i = Live x" by (cases "blk ! i") auto
      then show ?thesis using True i len le by (simp add: nth_append)
    next
      case False
      with live[OF i] have "blk ! i = Raw" by (cases "blk ! i") auto
      then show ?thesis using False i len le by (simp add: nth_append)
    qed
  qed
  then have "owns st v ?xs"
    using le b0 hb False len by (simp add: owns_def)
  then show ?thesis ..
qed




text \<open>
  The failure that the reallocating path of \<^verbatim>\<open>Emplace\<close> swallows breaks the invariant as
  well: the call returns with the size 3 over the slots raw, raw, 2, raw.
\<close>

lemma swallowed_failure_breaks_invariant:
  "\<not> invariant_after (Emplace (copy_throws_on 1) 10 (1, 1) (Some 9) (one_vector 10 1 [1, 2] 2))"
proof -
  let ?m = "Emplace (copy_throws_on 1) 10 (1, 1) (Some 9) (one_vector 10 1 [1, 2] 2)"
  have c: "returned ?m \<and> block_after ?m 2 = Some [Raw, Raw, Live 2, Raw] \<and>
           vector_after ?m 10 = Some \<lparr>m_data = \<lparr>m_buffer = 2, m_capacity = 4\<rparr>, m_size = 3\<rparr>"
    by code_simp
  then obtain p s where m: "?m = Returned p s" by (cases ?m) auto
  with c have h: "heap s 2 = Some [Raw, Raw, Live 2, Raw]"
    "vectors s 10 = Some \<lparr>m_data = \<lparr>m_buffer = 2, m_capacity = 4\<rparr>, m_size = 3\<rparr>"
    by simp_all
  have "\<not> vector_inv s \<lparr>m_data = \<lparr>m_buffer = 2, m_capacity = 4\<rparr>, m_size = 3\<rparr>"
    using h(1) by (simp add: vector_inv_def Capacity_def numeral_eq_Suc)
  with h(2) have "\<not> store_inv s" using store_invD(4) by blast
  then show ?thesis unfolding m by simp
qed

end
